theory Spec2Isabelle
  imports Main
begin

section \<open>The outline tree\<close>

text \<open>
  A \<^verbatim>\<open>Node\<close> of the source has a text, an ordered list of children, a collapsed flag
  and a back reference to its parent. The children lists own their nodes and no node is
  ever put into two lists, so the object graph is a tree and is modelled as one.
  The constructor sets \<^verbatim>\<open>children = []\<close> and \<^verbatim>\<open>collapsed = False\<close>.

  An object reference is modelled by the position of the object in the tree: the list of
  child indices leading from the root to it. The root is \<open>[]\<close>. The \<^verbatim>\<open>parent\<close> field
  is set in three places of the source, each time to the node whose \<^verbatim>\<open>children\<close> list
  receives the new node in the next statement, so the parent of the node at \<open>p @ [i]\<close> is
  the node at \<open>p\<close> and the parent of the root is \<^verbatim>\<open>None\<close>.
\<close>

datatype node = Node (node_text: string) (children: "node list") (collapsed: bool)

type_synonym ref = "nat list"

datatype error = IndexError | ValueError | BadRef

text \<open>Reading the object behind a reference, and mutating it in place.\<close>

primrec node_at :: "node \<Rightarrow> ref \<Rightarrow> node option" where
  "node_at n [] = Some n"
| "node_at n (i # p) =
     (if i < length (children n) then node_at (children n ! i) p else None)"

primrec update_at :: "ref \<Rightarrow> (node \<Rightarrow> node) \<Rightarrow> node \<Rightarrow> node" where
  "update_at [] f n = f n"
| "update_at (i # p) f n =
     Node (node_text n) ((children n)[i := update_at p f (children n ! i)]) (collapsed n)"

definition set_text :: "string \<Rightarrow> node \<Rightarrow> node" where
  "set_text t n = Node t (children n) (collapsed n)"

definition set_collapsed :: "bool \<Rightarrow> node \<Rightarrow> node" where
  "set_collapsed c n = Node (node_text n) (children n) c"

definition set_children :: "node list \<Rightarrow> node \<Rightarrow> node" where
  "set_children cs n = Node (node_text n) cs (collapsed n)"

text \<open>\<^verbatim>\<open>Node(text)\<close>: a fresh node.\<close>

definition new_node :: "string \<Rightarrow> node" where
  "new_node t = Node t [] False"

section \<open>Python list primitives\<close>

text \<open>\<^verbatim>\<open>xs[i]\<close>: a negative index counts from the end, an index out of range raises.\<close>

definition py_index :: "'a list \<Rightarrow> int \<Rightarrow> error + 'a" where
  "py_index xs i =
     (if 0 \<le> i \<and> i < int (length xs) then Inr (xs ! nat i)
      else if i < 0 \<and> - int (length xs) \<le> i then Inr (xs ! nat (int (length xs) + i))
      else Inl IndexError)"

text \<open>\<^verbatim>\<open>xs.index(x)\<close> for a list of object references: the first position holding the
  reference, \<^verbatim>\<open>ValueError\<close> when there is none.\<close>

fun index_from :: "nat \<Rightarrow> ref \<Rightarrow> (ref \<times> node) list \<Rightarrow> error + int" where
  "index_from k r [] = Inl ValueError"
| "index_from k r ((q, n) # xs) = (if q = r then Inr (int k) else index_from (Suc k) r xs)"

definition list_index :: "(ref \<times> node) list \<Rightarrow> ref \<Rightarrow> error + int" where
  "list_index xs r = index_from 0 r xs"

text \<open>\<^verbatim>\<open>xs.insert(i, x)\<close> for \<open>0 \<le> i\<close>, and the removal of the element at a position.\<close>

definition list_insert :: "nat \<Rightarrow> 'a \<Rightarrow> 'a list \<Rightarrow> 'a list" where
  "list_insert i x xs = take i xs @ x # drop i xs"

definition remove_nth :: "nat \<Rightarrow> 'a list \<Rightarrow> 'a list" where
  "remove_nth i xs = take i xs @ drop (Suc i) xs"

section \<open>AppState and the visibility flattener\<close>

text \<open>
  The record holds the fields of \<^verbatim>\<open>AppState\<close> and, as \<open>edit_input_text\<close>, the text of
  the global \<^verbatim>\<open>edit_input\<close> widget, which \<^verbatim>\<open>trigger_edit\<close> writes and \<^verbatim>\<open>finish_edit\<close>
  reads.
\<close>

record app_state =
  filename :: string
  root :: node
  selected_index :: int
  is_editing :: bool
  status_msg :: string
  edit_input_text :: string

text \<open>
  \<^verbatim>\<open>walk\<close> appends the node and then, unless it is collapsed, walks the children in
  order. The list it builds holds object references; here each entry is the reference
  together with the object it denotes. \<open>walk_children i cs\<close> is the \<^verbatim>\<open>for\<close> loop over
  the children, \<open>i\<close> the index of the first child of \<open>cs\<close> in the node's list.
\<close>

fun walk :: "node \<Rightarrow> (ref \<times> node) list"
  and walk_children :: "nat \<Rightarrow> node list \<Rightarrow> (ref \<times> node) list" where
  "walk (Node t cs c) = ([], Node t cs c) # (if \<not> c then walk_children 0 cs else [])"
| "walk_children i [] = []"
| "walk_children i (x # xs) =
     map (\<lambda>(p, m). (i # p, m)) (walk x) @ walk_children (Suc i) xs"

definition get_visible_nodes :: "app_state \<Rightarrow> (ref \<times> node) list" where
  "get_visible_nodes s = walk (root s)"

text \<open>
  \<^verbatim>\<open>get_selected_node\<close> stores the clamped index and returns the node at it. The
  result carries the updated state.
\<close>

definition get_selected_node :: "app_state \<Rightarrow> error + (app_state \<times> ref \<times> node)" where
  "get_selected_node s =
     (let nodes = get_visible_nodes s;
          i = max 0 (min (selected_index s) (int (length nodes) - 1));
          s' = s\<lparr>selected_index := i\<rparr>
      in case py_index nodes i of
           Inl e \<Rightarrow> Inl e
         | Inr n \<Rightarrow> Inr (s', n))"

section \<open>Key bindings\<close>

text \<open>
  Each handler takes the state and returns the state it leaves, or the exception it
  raises. The \<^verbatim>\<open>event\<close> argument and the focus changes concern the widgets only.
  Handlers under \<^verbatim>\<open>filter=is_not_editing\<close> run in navigation mode, those under
  \<^verbatim>\<open>filter=is_editing\<close> in text-entry mode.
\<close>

definition trigger_edit :: "app_state \<Rightarrow> string \<Rightarrow> app_state" where
  "trigger_edit s default_text = s\<lparr>is_editing := True, edit_input_text := default_text\<rparr>"

definition key_up :: "app_state \<Rightarrow> app_state" where
  "key_up s = s\<lparr>selected_index := selected_index s - 1\<rparr>"

definition key_down :: "app_state \<Rightarrow> app_state" where
  "key_down s = s\<lparr>selected_index := selected_index s + 1\<rparr>"

definition key_e :: "app_state \<Rightarrow> error + app_state" where
  "key_e s =
     (case get_selected_node s of
        Inl e \<Rightarrow> Inl e
      | Inr (s1, p, n) \<Rightarrow> Inr (trigger_edit s1 (node_text n)))"

text \<open>
  \<^verbatim>\<open>parent.children.append(new_node)\<close> puts the new node at the end of the parent's
  list, so its reference is the parent's followed by the old length of that list.
\<close>

definition add_child_and_edit :: "app_state \<Rightarrow> error + app_state" where
  "add_child_and_edit s =
     (case get_selected_node s of
        Inl e \<Rightarrow> Inl e
      | Inr (s1, parent, pn) \<Rightarrow>
          let new_ref = parent @ [length (children pn)];
              r1 = update_at parent
                     (\<lambda>n. set_children (children n @ [new_node ''New Node'']) n) (root s1);
              r2 = update_at parent (set_collapsed False) r1;
              s2 = s1\<lparr>root := r2\<rparr>
          in case list_index (get_visible_nodes s2) new_ref of
               Inl e \<Rightarrow> Inl e
             | Inr i \<Rightarrow> Inr (trigger_edit (s2\<lparr>selected_index := i\<rparr>) []))"

text \<open>
  \<^verbatim>\<open>if current.parent\<close> holds for every node but the root. A node stands once in its
  parent's list, at the last index of its reference: that is what
  \<^verbatim>\<open>current.parent.children.index(current)\<close> returns and what
  \<^verbatim>\<open>node.parent.children.remove(node)\<close> removes.
\<close>

definition add_sibling_and_edit :: "app_state \<Rightarrow> error + app_state" where
  "add_sibling_and_edit s =
     (case get_selected_node s of
        Inl e \<Rightarrow> Inl e
      | Inr (s1, current, cn) \<Rightarrow>
          if current \<noteq> [] then
            let parent = butlast current;
                idx = last current;
                new_ref = parent @ [idx + 1];
                r1 = update_at parent
                       (\<lambda>n. set_children
                              (list_insert (idx + 1) (new_node ''New Sibling'') (children n)) n)
                       (root s1);
                s2 = s1\<lparr>root := r1\<rparr>
            in case list_index (get_visible_nodes s2) new_ref of
                 Inl e \<Rightarrow> Inl e
               | Inr i \<Rightarrow> Inr (trigger_edit (s2\<lparr>selected_index := i\<rparr>) [])
          else Inr s1)"

text \<open>\<^verbatim>\<open>edit_input.text or "Untitled"\<close>: the empty string is false.\<close>

definition finish_edit :: "app_state \<Rightarrow> error + app_state" where
  "finish_edit s =
     (case get_selected_node s of
        Inl e \<Rightarrow> Inl e
      | Inr (s1, p, n) \<Rightarrow>
          let t = (if edit_input_text s1 \<noteq> [] then edit_input_text s1 else ''Untitled'')
          in Inr (s1\<lparr>root := update_at p (set_text t) (root s1), is_editing := False\<rparr>))"

definition cancel_edit :: "app_state \<Rightarrow> app_state" where
  "cancel_edit s = s\<lparr>is_editing := False\<rparr>"

definition key_dd :: "app_state \<Rightarrow> error + app_state" where
  "key_dd s =
     (case get_selected_node s of
        Inl e \<Rightarrow> Inl e
      | Inr (s1, p, n) \<Rightarrow>
          if p \<noteq> [] then
            Inr (s1\<lparr>root := update_at (butlast p)
                          (\<lambda>m. set_children (remove_nth (last p) (children m)) m) (root s1)\<rparr>)
          else Inr s1)"

definition key_space :: "app_state \<Rightarrow> error + app_state" where
  "key_space s =
     (case get_selected_node s of
        Inl e \<Rightarrow> Inl e
      | Inr (s1, p, n) \<Rightarrow>
          if children n \<noteq> [] then
            Inr (s1\<lparr>root := update_at p (\<lambda>m. set_collapsed (\<not> collapsed m) m) (root s1)\<rparr>)
          else Inr s1)"

text \<open>The typing of the user in the text-entry widget replaces its text.\<close>

definition type_text :: "string \<Rightarrow> app_state \<Rightarrow> app_state" where
  "type_text t s = s\<lparr>edit_input_text := t\<rparr>"

text \<open>
  The enter key has one binding for each mode, the escape key one for text-entry mode
  only.
\<close>

definition key_enter :: "app_state \<Rightarrow> error + app_state" where
  "key_enter s = (if is_editing s then finish_edit s else add_sibling_and_edit s)"

definition key_escape :: "app_state \<Rightarrow> app_state" where
  "key_escape s = (if is_editing s then cancel_edit s else s)"

section \<open>Markdown export\<close>

text \<open>
  \<^verbatim>\<open>'#' * level\<close> is empty for a level below one. \<open>to_markdown_children\<close> is the loop
  over \<^verbatim>\<open>node.children\<close>, each child rendered at \<^verbatim>\<open>level + 1\<close>.
\<close>

fun to_markdown :: "node \<Rightarrow> int \<Rightarrow> string list"
  and to_markdown_children :: "node list \<Rightarrow> int \<Rightarrow> string list" where
  "to_markdown (Node t cs c) level =
     (if level > 0 then [replicate (nat level) (CHR ''#'') @ '' '' @ t] else [])
     @ to_markdown_children cs level"
| "to_markdown_children [] level = []"
| "to_markdown_children (x # xs) level =
     to_markdown x (level + 1) @ to_markdown_children xs level"

text \<open>\<^verbatim>\<open>"\n".join(lines)\<close>, the text that the save binding writes.\<close>

fun join_lines :: "string list \<Rightarrow> string" where
  "join_lines [] = []"
| "join_lines [l] = l"
| "join_lines (l # ls) = l @ CHR 0x0A # join_lines ls"

definition key_s :: "app_state \<Rightarrow> string \<times> app_state" where
  "key_s s = (join_lines (to_markdown (root s) 0),
              s\<lparr>status_msg := '' Saved: '' @ filename s @ '' ''\<rparr>)"

section \<open>Markdown import\<close>

text \<open>
  The tokens are those of the Markdown tokenizer, a library outside the repository;
  \<open>parse_md\<close> takes the token list that \<^verbatim>\<open>md.parse(md_text)\<close> returns. Of a token the
  source reads \<^verbatim>\<open>type\<close>, \<^verbatim>\<open>tag\<close> and \<^verbatim>\<open>content\<close>.
\<close>

record token =
  token_type :: string
  tag :: string
  content :: string

text \<open>\<^verbatim>\<open>int(token.tag[1])\<close>: the second character of the tag, read as a decimal digit.\<close>

definition digit_of :: "char \<Rightarrow> int option" where
  "digit_of = map_of
     [(CHR ''0'', 0), (CHR ''1'', 1), (CHR ''2'', 2), (CHR ''3'', 3), (CHR ''4'', 4),
      (CHR ''5'', 5), (CHR ''6'', 6), (CHR ''7'', 7), (CHR ''8'', 8), (CHR ''9'', 9)]"

definition heading_level :: "string \<Rightarrow> error + int" where
  "heading_level tg =
     (if length tg \<le> 1 then Inl IndexError
      else case digit_of (tg ! 1) of None \<Rightarrow> Inl ValueError | Some d \<Rightarrow> Inr d)"

text \<open>
  The stack is kept with its top (\<^verbatim>\<open>stack[-1]\<close>) at the head.
  \<open>pop_stack\<close> is the loop \<^verbatim>\<open>while stack and stack[-1][0] >= level: stack.pop()\<close>.
\<close>

fun pop_stack :: "int \<Rightarrow> (int \<times> ref) list \<Rightarrow> (int \<times> ref) list" where
  "pop_stack level [] = []"
| "pop_stack level ((l, r) # st) =
     (if l \<ge> level then pop_stack level st else (l, r) # st)"

text \<open>
  The loop over the tokens; \<^verbatim>\<open>tokens[i + 1]\<close> is the head of the remaining tokens.
  A reference on the stack always denotes a node of the tree; \<open>BadRef\<close> stands for the
  case that it does not.
\<close>

fun parse_loop :: "token list \<Rightarrow> node \<Rightarrow> (int \<times> ref) list \<Rightarrow> error + node" where
  "parse_loop [] rt stack = Inr rt"
| "parse_loop (tok # rest) rt stack =
     (if token_type tok = ''heading_open'' then
        case heading_level (tag tok) of
          Inl e \<Rightarrow> Inl e
        | Inr level \<Rightarrow>
           (case rest of
              [] \<Rightarrow> Inl IndexError
            | nxt # _ \<Rightarrow>
               (case pop_stack level stack of
                  [] \<Rightarrow> Inl IndexError
                | (l, parent) # st \<Rightarrow>
                   (case node_at rt parent of
                      None \<Rightarrow> Inl BadRef
                    | Some pn \<Rightarrow>
                        parse_loop rest
                          (update_at parent
                             (\<lambda>n. set_children (children n @ [new_node (content nxt)]) n) rt)
                          ((level, parent @ [length (children pn)]) # (l, parent) # st))))
      else parse_loop rest rt stack)"

text \<open>\<^verbatim>\<open>os.path.basename\<close>: what follows the last slash.\<close>

definition basename :: "string \<Rightarrow> string" where
  "basename f = rev (takeWhile (\<lambda>c. c \<noteq> CHR ''/'') (rev f))"

definition parse_md :: "token list \<Rightarrow> string \<Rightarrow> error + node" where
  "parse_md tokens fname = parse_loop tokens (new_node (basename fname)) [(0, [])]"

section \<open>Positions in the tree\<close>

text \<open>
  \<open>visible n p\<close>: the reference \<open>p\<close> denotes a node below \<open>n\<close> and no node on the way
  to it, \<open>n\<close> included and the node itself excluded, is collapsed.
  \<open>before p q\<close> is the document order of a depth-first pre-order walk: a node stands
  before its descendants, and the subtree of a child before the subtree of every later
  child of the same parent.
\<close>

primrec visible :: "node \<Rightarrow> ref \<Rightarrow> bool" where
  "visible n [] = True"
| "visible n (i # p) =
     (\<not> collapsed n \<and> i < length (children n) \<and> visible (children n ! i) p)"

fun before :: "ref \<Rightarrow> ref \<Rightarrow> bool" where
  "before [] [] = False"
| "before [] (j # q) = True"
| "before (i # p) [] = False"
| "before (i # p) (j # q) = (i < j \<or> (i = j \<and> before p q))"

text \<open>A small tree and state on which the statements below are evaluated.\<close>

definition demo_tree :: node where
  "demo_tree = Node ''f'' [Node ''A'' [Node ''B'' [] False] True, Node ''C'' [] False] False"

definition demo_state :: app_state where
  "demo_state = \<lparr>filename = ''f'', root = demo_tree, selected_index = 0, is_editing = False,
     status_msg = [], edit_input_text = []\<rparr>"

definition demo_state_at :: "int \<Rightarrow> app_state" where
  "demo_state_at i = demo_state\<lparr>selected_index := i\<rparr>"

text \<open>
  \<open>commits_to s tgt\<close>: the state is in text-entry mode, \<open>tgt\<close> denotes a node, and
  whatever text has been typed, the enter key leaves text-entry mode with the node at
  \<open>tgt\<close> carrying the typed text (\<open>Untitled\<close> for the empty text) and its old children
  and collapsed flag, changing nothing else, while the escape key only leaves text-entry
  mode.
\<close>

definition commits_to :: "app_state \<Rightarrow> ref \<Rightarrow> bool" where
  "commits_to s tgt =
     (is_editing s \<and>
      (\<exists>m. node_at (root s) tgt = Some m \<and>
        (\<forall>t. key_enter (type_text t s)
               = Inr ((type_text t s)
                       \<lparr>root := update_at tgt
                           (\<lambda>n. Node (if t = [] then ''Untitled'' else t) (children n) (collapsed n))
                           (root s),
                        is_editing := False\<rparr>)
           \<and> node_at (update_at tgt
                   (\<lambda>n. Node (if t = [] then ''Untitled'' else t) (children n) (collapsed n))
                   (root s)) tgt
               = Some (Node (if t = [] then ''Untitled'' else t) (children m) (collapsed m))
           \<and> key_escape (type_text t s) = (type_text t s)\<lparr>is_editing := False\<rparr>)))"

text \<open>
  \<open>uncollapse\<close> clears every collapsed flag: two trees have the same shape, texts and
  order exactly when it maps them to the same tree.
\<close>

fun uncollapse :: "node \<Rightarrow> node" where
  "uncollapse (Node t cs c) = Node t (map uncollapse cs) False"

text \<open>The tokens of a document with the single heading \<open># A\<close>.\<close>

definition demo_tokens :: "token list" where
  "demo_tokens =
     [\<lparr>token_type = ''heading_open'', tag = ''h1'', content = []\<rparr>,
      \<lparr>token_type = ''inline'', tag = [], content = ''A''\<rparr>,
      \<lparr>token_type = ''heading_close'', tag = ''h1'', content = []\<rparr>]"

section \<open>Headings and nesting\<close>

text \<open>
  \<open>heading_list\<close>: level and text of the headings of a token list, in order, read the way
  the loop reads them. \<open>wf_headings\<close>: every heading token is followed by a token and
  its tag carries a level of at least one; the tokenizer produces no other token lists.
\<close>

primrec heading_list :: "token list \<Rightarrow> (int \<times> string) list" where
  "heading_list [] = []"
| "heading_list (tok # rest) =
     (if token_type tok = ''heading_open'' then
        (case (heading_level (tag tok), rest) of
           (Inr l, nxt # _) \<Rightarrow> [(l, content nxt)]
         | _ \<Rightarrow> [])
      else []) @ heading_list rest"

primrec wf_headings :: "token list \<Rightarrow> bool" where
  "wf_headings [] = True"
| "wf_headings (tok # rest) =
     ((if token_type tok = ''heading_open'' then
         rest \<noteq> [] \<and> (case heading_level (tag tok) of Inr l \<Rightarrow> 0 < l | Inl e \<Rightarrow> False)
       else True) \<and> wf_headings rest)"

text \<open>
  \<open>outline\<close>: reference and text of every node, in document order.
  \<open>rightmost n p\<close>: the reference follows the last child at every step.
  \<open>chain h\<close>: the stack after the headings \<open>h\<close> (level and reference, latest first).
  \<open>nearest level h\<close>: the reference of the first heading of \<open>h\<close> with a level below
  \<open>level\<close>, the root when there is none.
\<close>

definition outline :: "node \<Rightarrow> (ref \<times> string) list" where
  "outline n = map (\<lambda>e. (fst e, node_text (snd e))) (walk (uncollapse n))"

primrec rightmost :: "node \<Rightarrow> ref \<Rightarrow> bool" where
  "rightmost n [] = True"
| "rightmost n (i # p) = (Suc i = length (children n) \<and> rightmost (children n ! i) p)"

fun chain :: "(int \<times> ref) list \<Rightarrow> (int \<times> ref) list" where
  "chain [] = [(0, [])]"
| "chain ((l, p) # h) = (l, p) # pop_stack l (chain h)"

definition nearest :: "int \<Rightarrow> (int \<times> ref) list \<Rightarrow> ref" where
  "nearest level h = (case find (\<lambda>e. fst e < level) h of None \<Rightarrow> [] | Some e \<Rightarrow> snd e)"

fun parents_ok :: "(int \<times> ref) list \<Rightarrow> bool" where
  "parents_ok [] = True"
| "parents_ok ((l, p) # h) = (p \<noteq> [] \<and> butlast p = nearest l h \<and> parents_ok h)"

text \<open>What holds of tree and stack between two rounds of the loop.\<close>

definition parse_inv ::
  "node \<Rightarrow> (int \<times> ref) list \<Rightarrow> (int \<times> ref) list \<Rightarrow> (int \<times> string) list \<Rightarrow> bool" where
  "parse_inv rt stack h hs =
     (stack = chain h
      \<and> list_all (\<lambda>e. rightmost rt (snd e)) stack
      \<and> sorted_wrt (\<lambda>a b. length (snd b) < length (snd a)) stack
      \<and> map fst (tl (outline rt)) = rev (map snd h)
      \<and> map snd (tl (outline rt)) = map snd hs
      \<and> map fst hs = rev (map fst h)
      \<and> parents_ok h)"

section \<open>Tokens of a heading\<close>

text \<open>
  Modelled from the spec: the Markdown tokenizer (\<^verbatim>\<open>MarkdownIt().parse\<close>) is a library that
  is not part of the repository. For a heading it emits a \<^verbatim>\<open>heading_open\<close> token whose
  tag is \<^verbatim>\<open>h\<close> followed by the level, next an \<^verbatim>\<open>inline\<close> token whose content is the
  text of the heading, and then a \<^verbatim>\<open>heading_close\<close> token. \<open>parse_md\<close> reads the second
  character of that tag and the content of the token after it.
\<close>

definition digit_char :: "nat \<Rightarrow> char" where
  "digit_char d = ''0123456789'' ! d"

fun show_nat :: "nat \<Rightarrow> string" where
  "show_nat n = (if n < 10 then [digit_char n] else show_nat (n div 10) @ [digit_char (n mod 10)])"

definition heading_tokens :: "nat \<Rightarrow> string \<Rightarrow> token list" where
  "heading_tokens k t =
     [\<lparr>token_type = ''heading_open'', tag = ''h'' @ show_nat k, content = []\<rparr>,
      \<lparr>token_type = ''inline'', tag = [], content = t\<rparr>,
      \<lparr>token_type = ''heading_close'', tag = ''h'' @ show_nat k, content = []\<rparr>]"

text \<open>The tokens of three headings, of the levels one, three and two.\<close>

definition demo_jump_tokens :: "token list" where
  "demo_jump_tokens = heading_tokens 1 ''A'' @ heading_tokens 3 ''B'' @ heading_tokens 2 ''C''"


section \<open>Round trips\<close>









section \<open>Properties of the visibility flattener\<close>

lemma walk_children_iff_aux:
  assumes "\<And>x p m. x \<in> set cs \<Longrightarrow> ((p, m) \<in> set (walk x)) = (visible x p \<and> node_at x p = Some m)"
  shows "((p, m) \<in> set (walk_children k cs)) =
     (\<exists>i q. p = (k + i) # q \<and> i < length cs \<and> visible (cs ! i) q \<and> node_at (cs ! i) q = Some m)"
  using assms
proof (induction cs arbitrary: k)
  case Nil
  then show ?case by simp
next
  case (Cons x xs)
  have IH: "((p, m) \<in> set (walk_children (Suc k) xs)) =
     (\<exists>i q. p = (Suc k + i) # q \<and> i < length xs \<and> visible (xs ! i) q \<and> node_at (xs ! i) q = Some m)"
    by (rule Cons.IH) (simp add: Cons.prems)
  have hd: "\<And>p m. ((p, m) \<in> set (walk x)) = (visible x p \<and> node_at x p = Some m)"
    by (rule Cons.prems) simp
  show ?case
  proof
    assume "(p, m) \<in> set (walk_children k (x # xs))"
    then consider (a) "\<exists>q. p = k # q \<and> (q, m) \<in> set (walk x)"
      | (b) "(p, m) \<in> set (walk_children (Suc k) xs)"
      by auto
    then show "\<exists>i q. p = (k + i) # q \<and> i < length (x # xs) \<and> visible ((x # xs) ! i) q
        \<and> node_at ((x # xs) ! i) q = Some m"
    proof cases
      case a
      then obtain q where "p = k # q" "(q, m) \<in> set (walk x)" by blast
      then have "p = (k + 0) # q \<and> 0 < length (x # xs) \<and> visible ((x # xs) ! 0) q
        \<and> node_at ((x # xs) ! 0) q = Some m"
        using hd by simp
      then show ?thesis by blast
    next
      case b
      then obtain i q where "p = (Suc k + i) # q" "i < length xs" "visible (xs ! i) q"
        "node_at (xs ! i) q = Some m" using IH by blast
      then have "p = (k + Suc i) # q \<and> Suc i < length (x # xs) \<and> visible ((x # xs) ! Suc i) q
        \<and> node_at ((x # xs) ! Suc i) q = Some m" by simp
      then show ?thesis by blast
    qed
  next
    assume "\<exists>i q. p = (k + i) # q \<and> i < length (x # xs) \<and> visible ((x # xs) ! i) q
        \<and> node_at ((x # xs) ! i) q = Some m"
    then obtain i q where iq: "p = (k + i) # q" "i < length (x # xs)" "visible ((x # xs) ! i) q"
        "node_at ((x # xs) ! i) q = Some m" by blast
    show "(p, m) \<in> set (walk_children k (x # xs))"
    proof (cases i)
      case 0
      then have "(q, m) \<in> set (walk x)" using iq hd by simp
      then show ?thesis using iq 0 by (auto intro!: image_eqI[where x="(q, m)"])
    next
      case (Suc j)
      then have "(p, m) \<in> set (walk_children (Suc k) xs)"
        using iq IH by auto
      then show ?thesis by simp
    qed
  qed
qed

lemma walk_iff: "((p, m) \<in> set (walk n)) = (visible n p \<and> node_at n p = Some m)"
proof (induction n arbitrary: p m)
  case (Node t cs c)
  have ch: "\<And>k p m. ((p, m) \<in> set (walk_children k cs)) =
     (\<exists>i q. p = (k + i) # q \<and> i < length cs \<and> visible (cs ! i) q \<and> node_at (cs ! i) q = Some m)"
    by (rule walk_children_iff_aux) (rule Node.IH)
  show ?case
  proof (cases p)
    case Nil
    then show ?thesis by (auto simp: ch)
  next
    case (Cons i q)
    then show ?thesis by (auto simp: ch)
  qed
qed

lemma walk_children_iff:
  "((p, m) \<in> set (walk_children k cs)) =
     (\<exists>i q. p = (k + i) # q \<and> i < length cs \<and> visible (cs ! i) q \<and> node_at (cs ! i) q = Some m)"
  by (rule walk_children_iff_aux) (rule walk_iff)

lemma walk_not_Nil: "walk n \<noteq> []"
  by (cases n) simp

lemma py_index_in_range:
  "0 \<le> i \<Longrightarrow> i < int (length xs) \<Longrightarrow> py_index xs i = Inr (xs ! nat i)"
  by (simp add: py_index_def)

lemma get_selected_node_clamps_aux:
  "\<exists>i r. get_selected_node s = Inr (s\<lparr>selected_index := i\<rparr>, r)
     \<and> i = max 0 (min (selected_index s) (int (length (get_visible_nodes s)) - 1))
     \<and> 0 \<le> i \<and> i \<le> int (length (get_visible_nodes s)) - 1
     \<and> r = get_visible_nodes s ! nat i
     \<and> r \<in> set (get_visible_nodes s)"
proof -
  define nodes where "nodes = get_visible_nodes s"
  define i where "i = max 0 (min (selected_index s) (int (length nodes) - 1))"
  have ne: "nodes \<noteq> []"
    by (simp add: nodes_def get_visible_nodes_def walk_not_Nil)
  then have len: "0 < length nodes" by simp
  have lo: "0 \<le> i" by (simp add: i_def)
  have hi: "i \<le> int (length nodes) - 1" using len by (simp add: i_def)
  have "py_index nodes i = Inr (nodes ! nat i)"
    using lo hi by (intro py_index_in_range) simp_all
  then have "get_selected_node s = Inr (s\<lparr>selected_index := i\<rparr>, nodes ! nat i)"
    by (simp add: get_selected_node_def Let_def nodes_def i_def)
  moreover have "nodes ! nat i \<in> set nodes"
    using lo hi by (intro nth_mem) simp
  ultimately show ?thesis
    using lo hi unfolding nodes_def i_def by blast
qed

text \<open>
  C2. For every state and every integer in \<open>selected_index\<close>, \<open>get_selected_node\<close>
  raises nothing, stores the index clamped into the range from \<open>0\<close> to the length of
  the visible sequence less one, and returns the entry of the visible sequence at that
  index, which is a member of the sequence.
\<close>

theorem get_selected_node_clamps:
  "\<exists>i r. get_selected_node s = Inr (s\<lparr>selected_index := i\<rparr>, r)
     \<and> i = max 0 (min (selected_index s) (int (length (get_visible_nodes s)) - 1))
     \<and> 0 \<le> i \<and> i \<le> int (length (get_visible_nodes s)) - 1
     \<and> r = get_visible_nodes s ! nat i
     \<and> r \<in> set (get_visible_nodes s)"
  by (rule get_selected_node_clamps_aux)

lemma before_irrefl: "\<not> before p p"
  by (induction p) auto

lemma before_asym: "before p q \<Longrightarrow> \<not> before q p"
  by (induction p q rule: before.induct) auto

lemma before_append: "before p (p @ i # q)"
  by (induction p) auto

lemma before_Cons_same: "before (k # p) (k # q) = before p q"
  by simp

lemma fst_walk_child: "map fst (map (\<lambda>(p, m). (i # p, m)) xs) = map ((#) i) (map fst xs)"
  by (induction xs) auto

lemma walk_children_heads:
  "p \<in> set (map fst (walk_children k cs)) \<Longrightarrow> \<exists>j q. p = j # q \<and> k \<le> j"
proof -
  assume "p \<in> set (map fst (walk_children k cs))"
  then obtain m where "(p, m) \<in> set (walk_children k cs)" by auto
  then obtain i q where "p = (k + i) # q" unfolding walk_children_iff by blast
  then show ?thesis by auto
qed

lemma sorted_walk_children_aux:
  assumes "\<And>x. x \<in> set cs \<Longrightarrow> sorted_wrt before (map fst (walk x))"
  shows "sorted_wrt before (map fst (walk_children k cs))"
  using assms
proof (induction cs arbitrary: k)
  case Nil
  then show ?case by simp
next
  case (Cons x xs)
  have a: "sorted_wrt before (map ((#) k) (map fst (walk x)))"
    using Cons.prems[of x] by (simp add: sorted_wrt_map)
  have b: "sorted_wrt before (map fst (walk_children (Suc k) xs))"
    by (rule Cons.IH) (simp add: Cons.prems)
  have c: "before p q" if pin: "p \<in> set (map ((#) k) (map fst (walk x)))"
    and qin: "q \<in> set (map fst (walk_children (Suc k) xs))" for p q
  proof -
    obtain p' where p: "p = k # p'" using pin by auto
    obtain j q' where q: "q = j # q'" "Suc k \<le> j" using walk_children_heads[OF qin] by blast
    show ?thesis using p q by simp
  qed
  have eq: "map fst (walk_children k (x # xs)) =
      map ((#) k) (map fst (walk x)) @ map fst (walk_children (Suc k) xs)"
    by (simp add: fst_walk_child del: map_map)
  show ?case
    unfolding eq sorted_wrt_append using a b c by blast
qed

lemma sorted_walk: "sorted_wrt before (map fst (walk n))"
proof (induction n)
  case (Node t cs c)
  have ch: "sorted_wrt before (map fst (walk_children 0 cs))"
    by (rule sorted_walk_children_aux) (rule Node.IH)
  have "before [] q" if "q \<in> set (map fst (walk_children 0 cs))" for q
    using walk_children_heads[OF that] by auto
  then show ?case using ch by (simp del: set_map)
qed

lemma sorted_wrt_irrefl_distinct:
  "sorted_wrt P xs \<Longrightarrow> (\<And>x. \<not> P x x) \<Longrightarrow> distinct xs"
  by (induction xs) auto

lemma distinct_walk: "distinct (map fst (walk n))"
  by (rule sorted_wrt_irrefl_distinct[OF sorted_walk]) (rule before_irrefl)

lemma visible_node_at: "visible n p \<Longrightarrow> \<exists>m. node_at n p = Some m"
  by (induction p arbitrary: n) auto

lemma visible_prefix: "visible n (p @ q) \<Longrightarrow> visible n p"
  by (induction p arbitrary: n) auto

lemma visible_not_collapsed:
  "visible n (p @ i # q) \<Longrightarrow> node_at n p = Some m \<Longrightarrow> \<not> collapsed m"
  by (induction p arbitrary: n) auto

lemma visible_append:
  "node_at n p = Some m \<Longrightarrow> visible n (p @ q) = (visible n p \<and> visible m q)"
  by (induction p arbitrary: n) (auto split: if_splits)

lemma node_at_append:
  "node_at n p = Some m \<Longrightarrow> node_at n (p @ q) = node_at m q"
  by (induction p arbitrary: n) (auto split: if_splits)

lemma walk_hd: "hd (walk n) = ([], n)"
  by (cases n) simp

lemma parent_before_child:
  assumes "p @ [i] \<in> set (map fst (walk r))"
  shows "\<exists>a b. a < b \<and> b < length (walk r) \<and> fst (walk r ! a) = p \<and> fst (walk r ! b) = p @ [i]"
proof -
  let ?ps = "map fst (walk r)"
  obtain m where "(p @ [i], m) \<in> set (walk r)" using assms by auto
  then have "visible r (p @ [i])" by (simp add: walk_iff)
  then have vp: "visible r p" by (rule visible_prefix)
  then obtain m' where "node_at r p = Some m'" using visible_node_at by blast
  then have "(p, m') \<in> set (walk r)" using vp by (simp add: walk_iff)
  then have "p \<in> set ?ps" by force
  then obtain a where a: "a < length ?ps" "?ps ! a = p" by (auto simp: in_set_conv_nth)
  obtain b where b: "b < length ?ps" "?ps ! b = p @ [i]" using assms by (auto simp: in_set_conv_nth)
  have "a < b"
  proof (rule ccontr)
    assume "\<not> a < b"
    then consider "a = b" | "b < a" by linarith
    then show False
    proof cases
      case 1
      then show ?thesis using a b by simp
    next
      case 2
      then have "before (?ps ! b) (?ps ! a)"
        using sorted_wrt_nth_less[OF sorted_walk[of r], of b a] a by simp
      then have "before (p @ [i]) p" using a b by simp
      then show ?thesis using before_append[of p i "[]"] before_asym by blast
    qed
  qed
  then show ?thesis using a b by auto
qed

lemma collapsed_hides:
  assumes "node_at r p = Some n" "collapsed n" "q \<noteq> []"
  shows "p @ q \<notin> set (map fst (walk r))"
proof
  assume "p @ q \<in> set (map fst (walk r))"
  then obtain m where "(p @ q, m) \<in> set (walk r)" by auto
  then have v: "visible r (p @ q)" by (simp add: walk_iff)
  obtain i q' where "q = i # q'" using assms(3) by (cases q) auto
  then show False using visible_not_collapsed[of r p i q' n] v assms by simp
qed

text \<open>
  C5. For every tree, the visible sequence starts at the root and lists references in
  the document order of a depth-first pre-order walk; it holds exactly the nodes that
  have no collapsed node strictly above them; a node stands before each of its children;
  and below a collapsed node nothing appears, whatever the flags of its descendants.
\<close>

theorem get_visible_nodes_preorder:
  "hd (get_visible_nodes s) = ([], root s)
   \<and> sorted_wrt before (map fst (get_visible_nodes s))
   \<and> (\<forall>p m. ((p, m) \<in> set (get_visible_nodes s))
             = (visible (root s) p \<and> node_at (root s) p = Some m))
   \<and> (\<forall>p i. p @ [i] \<in> set (map fst (get_visible_nodes s)) \<longrightarrow>
         (\<exists>a b. a < b \<and> b < length (get_visible_nodes s)
            \<and> fst (get_visible_nodes s ! a) = p \<and> fst (get_visible_nodes s ! b) = p @ [i]))
   \<and> (\<forall>p n q. node_at (root s) p = Some n \<and> collapsed n \<and> q \<noteq> [] \<longrightarrow>
         p @ q \<notin> set (map fst (get_visible_nodes s)))"
  unfolding get_visible_nodes_def
proof (intro conjI allI impI)
  show "hd (walk (root s)) = ([], root s)" by (rule walk_hd)
  show "sorted_wrt before (map fst (walk (root s)))" by (rule sorted_walk)
  show "((p, m) \<in> set (walk (root s))) = (visible (root s) p \<and> node_at (root s) p = Some m)"
    for p m by (rule walk_iff)
  show "\<exists>a b. a < b \<and> b < length (walk (root s)) \<and> fst (walk (root s) ! a) = p
      \<and> fst (walk (root s) ! b) = p @ [i]"
    if "p @ [i] \<in> set (map fst (walk (root s)))" for p i
    using that by (rule parent_before_child)
  show "p @ q \<notin> set (map fst (walk (root s)))"
    if "node_at (root s) p = Some n \<and> collapsed n \<and> q \<noteq> []" for p n q
    using that collapsed_hides by blast
qed

lemma demo_walk: "walk demo_tree = [([], demo_tree), ([0], Node ''A'' [Node ''B'' [] False] True), ([1], Node ''C'' [] False)]"
  by (simp add: demo_tree_def)

theorem get_visible_nodes_preorder_witness:
  "[] @ [1] \<in> set (map fst (get_visible_nodes demo_state))
   \<and> (\<exists>a b. a < b \<and> b < length (get_visible_nodes demo_state)
          \<and> fst (get_visible_nodes demo_state ! a) = []
          \<and> fst (get_visible_nodes demo_state ! b) = [] @ [1])
   \<and> node_at (root demo_state) [0] = Some (Node ''A'' [Node ''B'' [] False] True)
   \<and> collapsed (Node ''A'' [Node ''B'' [] False] True) \<and> [0::nat] \<noteq> []
   \<and> [0] @ [0] \<notin> set (map fst (get_visible_nodes demo_state))
   \<and> map fst (get_visible_nodes demo_state) = [[], [0], [1]]"
proof -
  have w: "get_visible_nodes demo_state = walk demo_tree"
    by (simp add: get_visible_nodes_def demo_state_def)
  have a: "[] @ [1] \<in> set (map fst (get_visible_nodes demo_state))"
    by (simp add: w demo_walk)
  have b: "node_at (root demo_state) [0] = Some (Node ''A'' [Node ''B'' [] False] True)"
    by (simp add: demo_state_def demo_tree_def)
  have c: "map fst (get_visible_nodes demo_state) = [[], [0], [1]]"
    by (simp add: w demo_walk)
  have t: "\<forall>p i. p @ [i] \<in> set (map fst (get_visible_nodes demo_state)) \<longrightarrow>
         (\<exists>a b. a < b \<and> b < length (get_visible_nodes demo_state)
            \<and> fst (get_visible_nodes demo_state ! a) = p
            \<and> fst (get_visible_nodes demo_state ! b) = p @ [i])"
    and u: "\<forall>p n q. node_at (root demo_state) p = Some n \<and> collapsed n \<and> q \<noteq> [] \<longrightarrow>
         p @ q \<notin> set (map fst (get_visible_nodes demo_state))"
    using get_visible_nodes_preorder[of demo_state] by blast+
  have d: "\<exists>a b. a < b \<and> b < length (get_visible_nodes demo_state)
          \<and> fst (get_visible_nodes demo_state ! a) = []
          \<and> fst (get_visible_nodes demo_state ! b) = [] @ [1]"
    using t a by blast
  have e: "[0] @ [0] \<notin> set (map fst (get_visible_nodes demo_state))"
    using u b by (metis node.sel(3) not_Cons_self2)
  show ?thesis
    using a b c d e by (intro conjI) simp_all
qed

subsection \<open>Mutation at a reference\<close>

lemma update_at_comp: "update_at p g (update_at p f n) = update_at p (\<lambda>x. g (f x)) n"
proof (induction p arbitrary: n)
  case Nil
  then show ?case by simp
next
  case (Cons i p)
  show ?case
  proof (cases "i < length (children n)")
    case True
    then show ?thesis by (simp add: Cons.IH)
  next
    case False
    then show ?thesis by (simp add: list_update_beyond)
  qed
qed

lemma node_at_update_at:
  "node_at n p = Some m \<Longrightarrow> node_at (update_at p f n) (p @ q) = node_at (f m) q"
  by (induction p arbitrary: n) (auto split: if_splits)

lemma node_at_update_at_same:
  "node_at n p = Some m \<Longrightarrow> node_at (update_at p f n) p = Some (f m)"
  using node_at_update_at[of n p m f "[]"] by simp

lemma visible_update_at:
  "node_at n p = Some m \<Longrightarrow> visible (update_at p f n) (p @ q) = (visible n p \<and> visible (f m) q)"
  by (induction p arbitrary: n) (auto split: if_splits)

lemma visible_update_at_same:
  "node_at n p = Some m \<Longrightarrow> visible (update_at p f n) p = visible n p"
  using visible_update_at[of n p m f "[]"] by simp


lemma walk_children_append:
  "walk_children k (xs @ ys) = walk_children k xs @ walk_children (k + length xs) ys"
  by (induction xs arbitrary: k) auto

lemma walk_children_update:
  assumes "i < length cs"
  shows "walk_children k (cs[i := x]) =
     walk_children k (take i cs) @ map (\<lambda>(p, m). ((k + i) # p, m)) (walk x)
       @ walk_children (Suc (k + i)) (drop (Suc i) cs)"
proof -
  have "cs[i := x] = take i cs @ (x # drop (Suc i) cs)"
    using assms by (rule upd_conv_take_nth_drop)
  then show ?thesis
    using assms by (simp add: walk_children_append)
qed

text \<open>
  The visible sequence around a visible node: what stands before and after the node's
  own part does not depend on the node.
\<close>

lemma walk_update_at:
  assumes "visible n p" and "node_at n p = Some m"
  shows "\<exists>pre post. \<forall>f. map fst (walk (update_at p f n))
            = pre @ map ((@) p) (map fst (walk (f m))) @ post"
  using assms
proof (induction p arbitrary: n)
  case Nil
  then have "\<forall>f. map fst (walk (update_at [] f n)) = [] @ map ((@) []) (map fst (walk (f m))) @ []"
    by simp
  then show ?case by blast
next
  case (Cons i p)
  obtain t cs c where n: "n = Node t cs c" by (cases n)
  have i: "i < length cs" and c: "\<not> c" and v: "visible (cs ! i) p"
    using Cons.prems(1) n by simp_all
  have na: "node_at (cs ! i) p = Some m" using Cons.prems(2) n i by simp
  obtain pre post where ih: "\<And>f. map fst (walk (update_at p f (cs ! i)))
            = pre @ map ((@) p) (map fst (walk (f m))) @ post"
    using Cons.IH[OF v na] by blast
  let ?pre = "[] # map fst (walk_children 0 (take i cs)) @ map ((#) i) pre"
  let ?post = "map ((#) i) post @ map fst (walk_children (Suc i) (drop (Suc i) cs))"
  have "map fst (walk (update_at (i # p) f n))
            = ?pre @ map ((@) (i # p)) (map fst (walk (f m))) @ ?post" for f
  proof -
    have "map fst (walk (update_at (i # p) f n))
        = [] # map fst (walk_children 0 (cs[i := update_at p f (cs ! i)]))"
      using n c by simp
    also have "map fst (walk_children 0 (cs[i := update_at p f (cs ! i)]))
        = map fst (walk_children 0 (take i cs))
          @ map ((#) i) (map fst (walk (update_at p f (cs ! i))))
          @ map fst (walk_children (Suc i) (drop (Suc i) cs))"
      using walk_children_update[OF i, of 0 "update_at p f (cs ! i)"]
      by (simp add: fst_walk_child del: map_map)
    also have "map ((#) i) (map fst (walk (update_at p f (cs ! i))))
        = map ((#) i) pre @ map ((@) (i # p)) (map fst (walk (f m))) @ map ((#) i) post"
      by (simp add: ih)
    finally show ?thesis by simp
  qed
  then show ?case by blast
qed

lemma update_at_id: "update_at p (\<lambda>x. x) n = n"
proof (induction p arbitrary: n)
  case Nil
  then show ?case by simp
next
  case (Cons i p)
  then show ?case by (cases n) (simp add: list_update_same_conv)
qed

lemma length_walk_update_at:
  assumes "visible n p" and "node_at n p = Some m"
  shows "length (walk (update_at p f n)) + length (walk m) = length (walk n) + length (walk (f m))"
proof -
  obtain pre post where ctx: "\<And>f. map fst (walk (update_at p f n))
            = pre @ map ((@) p) (map fst (walk (f m))) @ post"
    using walk_update_at[OF assms] by blast
  have "length (map fst (walk (update_at p f n))) = length pre + length (walk (f m)) + length post"
    by (simp add: ctx)
  moreover have "length (map fst (walk (update_at p (\<lambda>x. x) n))) = length pre + length (walk m) + length post"
    by (simp add: ctx)
  ultimately show ?thesis by (simp add: update_at_id)
qed

lemma index_walk_update_at:
  assumes "visible n p" and "node_at n p = Some m"
    and "i < length (walk n)" and "fst (walk n ! i) = p"
  shows "i < length (walk (update_at p f n)) \<and> fst (walk (update_at p f n) ! i) = p"
proof -
  obtain pre post where ctx: "\<And>f. map fst (walk (update_at p f n))
            = pre @ map ((@) p) (map fst (walk (f m))) @ post"
    using walk_update_at[OF assms(1,2)] by blast
  have hd: "\<exists>ps. map ((@) p) (map fst (walk x)) = p # ps" for x
    by (cases x) simp
  obtain ps0 where o: "map fst (walk n) = pre @ (p # ps0) @ post"
    using ctx[of "\<lambda>x. x"] hd[of m] by (auto simp: update_at_id)
  have "map fst (walk n) ! length pre = p" by (simp add: o)
  moreover have "length pre < length (map fst (walk n))" by (simp add: o)
  moreover have "map fst (walk n) ! i = p" using assms(3,4) by simp
  ultimately have "i = length pre"
    using distinct_walk[of n] assms(3) by (metis length_map nth_eq_iff_index_eq)
  obtain ps1 where u: "map fst (walk (update_at p f n)) = pre @ (p # ps1) @ post"
    using ctx[of f] hd[of "f m"] by auto
  have "length pre < length (map fst (walk (update_at p f n)))" by (simp add: u)
  moreover have "map fst (walk (update_at p f n)) ! length pre = p" by (simp add: u)
  ultimately show ?thesis using \<open>i = length pre\<close> by simp
qed

subsection \<open>The selected node\<close>

lemma get_selected_node_Inr:
  assumes "get_selected_node s = Inr (s1, p, n)"
  shows "s1 = s\<lparr>selected_index := selected_index s1\<rparr>"
    and "0 \<le> selected_index s1"
    and "nat (selected_index s1) < length (walk (root s))"
    and "walk (root s) ! nat (selected_index s1) = (p, n)"
    and "visible (root s) p" and "node_at (root s) p = Some n"
    and "root s1 = root s"
proof -
  obtain i r where g: "get_selected_node s = Inr (s\<lparr>selected_index := i\<rparr>, r)"
    and i: "0 \<le> i" "i \<le> int (length (get_visible_nodes s)) - 1"
    and r: "r = get_visible_nodes s ! nat i" "r \<in> set (get_visible_nodes s)"
    using get_selected_node_clamps_aux[of s] by blast
  have s1: "s1 = s\<lparr>selected_index := i\<rparr>" and rr: "r = (p, n)" using g assms by simp_all
  show "s1 = s\<lparr>selected_index := selected_index s1\<rparr>" using s1 by simp
  show "0 \<le> selected_index s1" using s1 i by simp
  show "nat (selected_index s1) < length (walk (root s))"
    using s1 i by (simp add: get_visible_nodes_def)
  show "walk (root s) ! nat (selected_index s1) = (p, n)"
    using s1 r rr by (simp add: get_visible_nodes_def)
  have "(p, n) \<in> set (walk (root s))" using r rr by (simp add: get_visible_nodes_def)
  then show "visible (root s) p" "node_at (root s) p = Some n" by (simp_all add: walk_iff)
  show "root s1 = root s" using s1 by simp
qed

lemma get_selected_node_at:
  assumes "0 \<le> selected_index s" and "nat (selected_index s) < length (walk (root s))"
  shows "get_selected_node s = Inr (s, walk (root s) ! nat (selected_index s))"
proof -
  have "max 0 (min (selected_index s) (int (length (walk (root s))) - 1)) = selected_index s"
    using assms by simp
  moreover have "py_index (walk (root s)) (selected_index s)
      = Inr (walk (root s) ! nat (selected_index s))"
    using assms by (intro py_index_in_range) simp_all
  ultimately show ?thesis
    by (simp add: get_selected_node_def get_visible_nodes_def Let_def)
qed

subsection \<open>Toggling the collapsed flag\<close>

lemma length_walk_collapsed: "collapsed m \<Longrightarrow> length (walk m) = 1"
  by (cases m) simp

lemma length_walk_expanded:
  "\<not> collapsed m \<Longrightarrow> length (walk m) = Suc (length (walk_children 0 (children m)))"
  by (cases m) simp

lemma toggle_twice:
  "update_at p (\<lambda>m. set_collapsed (\<not> collapsed m) m)
     (update_at p (\<lambda>m. set_collapsed (\<not> collapsed m) m) r) = r"
  by (simp add: update_at_comp set_collapsed_def update_at_id)

lemma key_space_toggles:
  assumes "get_selected_node s = Inr (s1, p, n)" and "children n \<noteq> []"
  shows "key_space s = Inr (s1\<lparr>root := update_at p (\<lambda>m. set_collapsed (\<not> collapsed m) m) (root s)\<rparr>)"
  using assms get_selected_node_Inr(7)[OF assms(1)] by (simp add: key_space_def)

lemma get_selected_node_toggled:
  assumes "get_selected_node s = Inr (s1, p, n)"
  shows "get_selected_node (s1\<lparr>root := update_at p f (root s)\<rparr>)
     = Inr (s1\<lparr>root := update_at p f (root s)\<rparr>, p, f n)"
proof -
  note g = get_selected_node_Inr[OF assms]
  let ?r = "update_at p f (root s)"
  let ?s2 = "s1\<lparr>root := ?r\<rparr>"
  have ix: "nat (selected_index s1) < length (walk ?r)"
     "fst (walk ?r ! nat (selected_index s1)) = p"
    using index_walk_update_at[OF g(5) g(6) g(3), of f] g(4) by simp_all
  have "walk ?r ! nat (selected_index s1) \<in> set (walk ?r)"
    using ix(1) by (rule nth_mem)
  then have "node_at ?r p = Some (snd (walk ?r ! nat (selected_index s1)))"
    using ix(2) walk_iff[of p "snd (walk ?r ! nat (selected_index s1))" ?r]
    by (metis prod.collapse)
  then have "snd (walk ?r ! nat (selected_index s1)) = f n"
    using node_at_update_at_same[OF g(6), of f] by simp
  then have "walk ?r ! nat (selected_index s1) = (p, f n)"
    using ix(2) by (metis prod.collapse)
  then show ?thesis
    using get_selected_node_at[of ?s2] g(2) ix(1) by simp
qed

text \<open>
  C9. When the selected node (any node of the visible sequence can be selected) has
  children, the toggle binding flips its flag and the length of the visible sequence
  changes by exactly the number of visible nodes strictly below it, counted with the node
  expanded: it grows by that number when the node was collapsed and shrinks by it
  otherwise. That number is positive. Toggling again gives back the original tree and
  the original length.
\<close>

theorem toggle_collapse_count:
  assumes "get_selected_node s = Inr (s1, p, n)" and "children n \<noteq> []"
  shows "\<exists>s2 s3. key_space s = Inr s2
     \<and> root s2 = update_at p (\<lambda>m. set_collapsed (\<not> collapsed m) m) (root s)
     \<and> (if collapsed n
         then length (get_visible_nodes s2)
              = length (get_visible_nodes s) + length (walk_children 0 (children n))
         else length (get_visible_nodes s)
              = length (get_visible_nodes s2) + length (walk_children 0 (children n)))
     \<and> 0 < length (walk_children 0 (children n))
     \<and> key_space s2 = Inr s3
     \<and> root s3 = root s
     \<and> length (get_visible_nodes s3) = length (get_visible_nodes s)"
proof -
  note g = get_selected_node_Inr[OF assms(1)]
  let ?f = "\<lambda>m. set_collapsed (\<not> collapsed m) m"
  let ?s2 = "s1\<lparr>root := update_at p ?f (root s)\<rparr>"
  let ?s3 = "?s2\<lparr>root := update_at p ?f (root ?s2)\<rparr>"
  let ?k = "length (walk_children 0 (children n))"
  have k2: "key_space s = Inr ?s2" using assms by (rule key_space_toggles)
  have len: "length (walk (update_at p ?f (root s))) + length (walk n)
      = length (walk (root s)) + length (walk (?f n))"
    using g(5) g(6) by (rule length_walk_update_at)
  have cnt: "if collapsed n
         then length (get_visible_nodes ?s2) = length (get_visible_nodes s) + ?k
         else length (get_visible_nodes s) = length (get_visible_nodes ?s2) + ?k"
  proof (cases "collapsed n")
    case True
    then have "length (walk n) = 1" by (rule length_walk_collapsed)
    moreover have "length (walk (?f n)) = Suc ?k"
      using True length_walk_expanded[of "?f n"] by (simp add: set_collapsed_def)
    ultimately show ?thesis using len True by (simp add: get_visible_nodes_def)
  next
    case False
    then have "length (walk n) = Suc ?k" by (rule length_walk_expanded)
    moreover have "length (walk (?f n)) = 1"
      using False length_walk_collapsed[of "?f n"] by (simp add: set_collapsed_def)
    ultimately show ?thesis using len False by (simp add: get_visible_nodes_def)
  qed
  have pos: "0 < ?k"
  proof -
    obtain x xs where "children n = x # xs" using assms(2) by (cases "children n") auto
    then show ?thesis using walk_not_Nil[of x] by simp
  qed
  have sel2: "get_selected_node ?s2 = Inr (?s2, p, ?f n)"
    using assms(1) by (rule get_selected_node_toggled)
  have "children (?f n) \<noteq> []" using assms(2) by (simp add: set_collapsed_def)
  then have k3: "key_space ?s2 = Inr ?s3"
    using key_space_toggles[OF sel2] by simp
  have r3: "root ?s3 = root s" by (simp add: toggle_twice)
  then have l3: "length (get_visible_nodes ?s3) = length (get_visible_nodes s)"
    by (simp add: get_visible_nodes_def)
  have r2: "root ?s2 = update_at p ?f (root s)" by simp
  show ?thesis
    using k2 r2 cnt pos k3 r3 l3 by blast
qed

lemma demo_selected:
  "get_selected_node (demo_state_at 0) = Inr (demo_state_at 0, [], demo_tree)"
  "get_selected_node (demo_state_at 1)
     = Inr (demo_state_at 1, [0], Node ''A'' [Node ''B'' [] False] True)"
  "get_selected_node (demo_state_at 2) = Inr (demo_state_at 2, [1], Node ''C'' [] False)"
  by (simp_all add: get_selected_node_def get_visible_nodes_def demo_state_at_def
      demo_state_def demo_walk py_index_def Let_def)

theorem toggle_collapse_count_witness:
  "get_selected_node (demo_state_at 1)
     = Inr (demo_state_at 1, [0], Node ''A'' [Node ''B'' [] False] True)
   \<and> children (Node ''A'' [Node ''B'' [] False] True) \<noteq> []
   \<and> (\<exists>s2 s3. key_space (demo_state_at 1) = Inr s2
     \<and> root s2 = update_at [0] (\<lambda>m. set_collapsed (\<not> collapsed m) m) (root (demo_state_at 1))
     \<and> length (get_visible_nodes s2) = length (get_visible_nodes (demo_state_at 1)) + 1
     \<and> key_space s2 = Inr s3
     \<and> root s3 = root (demo_state_at 1)
     \<and> length (get_visible_nodes s3) = length (get_visible_nodes (demo_state_at 1)))"
proof -
  have h1: "get_selected_node (demo_state_at 1)
     = Inr (demo_state_at 1, [0], Node ''A'' [Node ''B'' [] False] True)"
    by (rule demo_selected)
  have h2: "children (Node ''A'' [Node ''B'' [] False] True) \<noteq> []" by simp
  show ?thesis
    using toggle_collapse_count[OF h1 h2] h1 by simp
qed

subsection \<open>Inserting nodes\<close>

lemma index_from_finds:
  "r \<in> fst ` set xs \<Longrightarrow>
     \<exists>j. index_from k r xs = Inr (int (k + j)) \<and> j < length xs \<and> fst (xs ! j) = r"
proof (induction xs arbitrary: k)
  case Nil
  then show ?case by simp
next
  case (Cons x xs)
  obtain q n where x: "x = (q, n)" by (cases x)
  show ?case
  proof (cases "q = r")
    case True
    then have "index_from k r (x # xs) = Inr (int (k + 0)) \<and> 0 < length (x # xs)
        \<and> fst ((x # xs) ! 0) = r"
      using x by simp
    then show ?thesis by blast
  next
    case False
    then have "r \<in> fst ` set xs" using Cons.prems x by auto
    then obtain j where "index_from (Suc k) r xs = Inr (int (Suc k + j))" "j < length xs"
        "fst (xs ! j) = r"
      using Cons.IH by blast
    then have "index_from k r (x # xs) = Inr (int (k + Suc j)) \<and> Suc j < length (x # xs)
        \<and> fst ((x # xs) ! Suc j) = r"
      using x False by simp
    then show ?thesis by blast
  qed
qed

text \<open>Selecting a visible node by its position in the visible sequence.\<close>

lemma select_by_index:
  assumes "visible r q" and "node_at r q = Some m" and "root s = r"
  shows "\<exists>i. list_index (get_visible_nodes s) q = Inr i
     \<and> get_selected_node (s\<lparr>selected_index := i\<rparr>) = Inr (s\<lparr>selected_index := i\<rparr>, q, m)"
proof -
  have "(q, m) \<in> set (walk r)" using assms by (simp add: walk_iff)
  then have "q \<in> fst ` set (walk r)" by force
  then obtain j where j: "index_from 0 q (walk r) = Inr (int (0 + j))" "j < length (walk r)"
      "fst (walk r ! j) = q"
    using index_from_finds by blast
  have "walk r ! j \<in> set (walk r)" using j(2) by (rule nth_mem)
  then have "node_at r q = Some (snd (walk r ! j))"
    using j(3) walk_iff[of q "snd (walk r ! j)" r] by (metis prod.collapse)
  then have "walk r ! j = (q, m)" using assms(2) j(3) by (metis option.inject prod.collapse)
  then have "get_selected_node (s\<lparr>selected_index := int j\<rparr>)
      = Inr (s\<lparr>selected_index := int j\<rparr>, q, m)"
    using get_selected_node_at[of "s\<lparr>selected_index := int j\<rparr>"] j(2) assms(3) by simp
  moreover have "list_index (get_visible_nodes s) q = Inr (int j)"
    using j(1) assms(3) by (simp add: list_index_def get_visible_nodes_def)
  ultimately show ?thesis by blast
qed

lemma add_child_and_edit_result:
  assumes "get_selected_node s = Inr (s1, p, pn)"
  shows "\<exists>i. add_child_and_edit s =
       Inr (s1\<lparr>root := update_at p (\<lambda>n. Node (node_text n) (children n @ [new_node ''New Node'']) False)
                          (root s),
               selected_index := i, is_editing := True, edit_input_text := []\<rparr>)
     \<and> get_selected_node
          (s1\<lparr>root := update_at p (\<lambda>n. Node (node_text n) (children n @ [new_node ''New Node'']) False)
                          (root s),
               selected_index := i, is_editing := True, edit_input_text := []\<rparr>)
       = Inr (s1\<lparr>root := update_at p (\<lambda>n. Node (node_text n) (children n @ [new_node ''New Node'']) False)
                          (root s),
               selected_index := i, is_editing := True, edit_input_text := []\<rparr>,
              p @ [length (children pn)], new_node ''New Node'')"
proof -
  note g = get_selected_node_Inr[OF assms]
  let ?f = "\<lambda>n. Node (node_text n) (children n @ [new_node ''New Node'']) False"
  let ?r = "update_at p ?f (root s)"
  let ?q = "p @ [length (children pn)]"
  have r2: "update_at p (set_collapsed False)
       (update_at p (\<lambda>n. set_children (children n @ [new_node ''New Node'']) n) (root s1)) = ?r"
    by (simp add: update_at_comp set_collapsed_def set_children_def g(7))
  have v: "visible ?r ?q"
    using g(5) by (simp add: visible_update_at[OF g(6)])
  have n: "node_at ?r ?q = Some (new_node ''New Node'')"
    by (simp add: node_at_update_at[OF g(6)])
  let ?s2 = "s1\<lparr>root := ?r, is_editing := True, edit_input_text := []\<rparr>"
  obtain i where i: "list_index (get_visible_nodes ?s2) ?q = Inr i"
    "get_selected_node (?s2\<lparr>selected_index := i\<rparr>)
       = Inr (?s2\<lparr>selected_index := i\<rparr>, ?q, new_node ''New Node'')"
    using select_by_index[OF v n, of ?s2] by auto
  have gv: "get_visible_nodes (s1\<lparr>root := ?r\<rparr>) = get_visible_nodes ?s2"
    by (simp add: get_visible_nodes_def)
  let ?s3 = "s1\<lparr>root := ?r, selected_index := i, is_editing := True, edit_input_text := []\<rparr>"
  have eq: "?s2\<lparr>selected_index := i\<rparr> = ?s3" by simp
  have "add_child_and_edit s = Inr (trigger_edit (s1\<lparr>root := ?r, selected_index := i\<rparr>) [])"
    using assms i(1) by (simp add: add_child_and_edit_def Let_def r2 gv)
  then have A: "add_child_and_edit s = Inr ?s3"
    by (simp add: trigger_edit_def)
  have B: "get_selected_node ?s3 = Inr (?s3, ?q, new_node ''New Node'')"
    using i(2) unfolding eq .
  show ?thesis
    by (rule exI[of _ i]) (rule conjI[OF A B])
qed

lemma visible_parent:
  assumes "visible r p" and "p \<noteq> []"
  shows "\<exists>pm. node_at r (butlast p) = Some pm \<and> visible r (butlast p) \<and> \<not> collapsed pm
     \<and> last p < length (children pm)"
proof -
  have p: "p = butlast p @ [last p]" using assms(2) by simp
  have v: "visible r (butlast p @ [last p])" using assms(1) p by simp
  then have vp: "visible r (butlast p)" by (rule visible_prefix)
  then obtain pm where pm: "node_at r (butlast p) = Some pm" using visible_node_at by blast
  have "visible pm [last p]" using v visible_append[OF pm, of "[last p]"] by simp
  then show ?thesis using pm vp by simp
qed

lemma add_sibling_and_edit_result:
  assumes "get_selected_node s = Inr (s1, p, n)" and "p \<noteq> []"
  shows "\<exists>i. add_sibling_and_edit s =
       Inr (s1\<lparr>root := update_at (butlast p)
                 (\<lambda>m. set_children (list_insert (Suc (last p)) (new_node ''New Sibling'') (children m)) m)
                 (root s),
               selected_index := i, is_editing := True, edit_input_text := []\<rparr>)
     \<and> get_selected_node
          (s1\<lparr>root := update_at (butlast p)
                 (\<lambda>m. set_children (list_insert (Suc (last p)) (new_node ''New Sibling'') (children m)) m)
                 (root s),
               selected_index := i, is_editing := True, edit_input_text := []\<rparr>)
       = Inr (s1\<lparr>root := update_at (butlast p)
                 (\<lambda>m. set_children (list_insert (Suc (last p)) (new_node ''New Sibling'') (children m)) m)
                 (root s),
               selected_index := i, is_editing := True, edit_input_text := []\<rparr>,
              butlast p @ [Suc (last p)], new_node ''New Sibling'')"
proof -
  note g = get_selected_node_Inr[OF assms(1)]
  let ?f = "\<lambda>m. set_children (list_insert (Suc (last p)) (new_node ''New Sibling'') (children m)) m"
  let ?r = "update_at (butlast p) ?f (root s)"
  let ?q = "butlast p @ [Suc (last p)]"
  obtain pm where pm: "node_at (root s) (butlast p) = Some pm" "visible (root s) (butlast p)"
      "\<not> collapsed pm" "last p < length (children pm)"
    using visible_parent[OF g(5) assms(2)] by blast
  have fpm: "?f pm = Node (node_text pm)
      (take (Suc (last p)) (children pm) @ new_node ''New Sibling'' # drop (Suc (last p)) (children pm))
      (collapsed pm)"
    by (simp add: set_children_def list_insert_def)
  have nth: "(take (Suc (last p)) (children pm) @ new_node ''New Sibling''
        # drop (Suc (last p)) (children pm)) ! Suc (last p) = new_node ''New Sibling''"
    using pm(4) by (simp add: nth_append)
  have v: "visible ?r ?q"
    using pm(2,3,4) unfolding visible_update_at[OF pm(1)] fpm by simp
  have n: "node_at ?r ?q = Some (new_node ''New Sibling'')"
    using pm(4) nth unfolding node_at_update_at[OF pm(1)] fpm by simp
  let ?s2 = "s1\<lparr>root := ?r, is_editing := True, edit_input_text := []\<rparr>"
  obtain i where i: "list_index (get_visible_nodes ?s2) ?q = Inr i"
    "get_selected_node (?s2\<lparr>selected_index := i\<rparr>)
       = Inr (?s2\<lparr>selected_index := i\<rparr>, ?q, new_node ''New Sibling'')"
    using select_by_index[OF v n, of ?s2] by auto
  have gv: "get_visible_nodes (s1\<lparr>root := ?r\<rparr>) = get_visible_nodes ?s2"
    by (simp add: get_visible_nodes_def)
  let ?s3 = "s1\<lparr>root := ?r, selected_index := i, is_editing := True, edit_input_text := []\<rparr>"
  have eq: "?s2\<lparr>selected_index := i\<rparr> = ?s3" by simp
  have "add_sibling_and_edit s = Inr (trigger_edit (s1\<lparr>root := ?r, selected_index := i\<rparr>) [])"
    using assms i(1) by (simp add: add_sibling_and_edit_def Let_def gv g(7))
  then have A: "add_sibling_and_edit s = Inr ?s3"
    by (simp add: trigger_edit_def)
  have B: "get_selected_node ?s3 = Inr (?s3, ?q, new_node ''New Sibling'')"
    using i(2) unfolding eq .
  show ?thesis
    by (rule exI[of _ i]) (rule conjI[OF A B])
qed


text \<open>
  C8. When the selected node is the root, the delete binding and the insert-sibling
  binding raise nothing and leave the state as \<open>get_selected_node\<close> left it: the tree and
  the mode are unchanged. When the selected node has no children, the same holds for the
  toggle binding.
\<close>

theorem root_and_leaf_noops:
  "(get_selected_node s = Inr (s1, [], n) \<longrightarrow>
       key_dd s = Inr s1 \<and> add_sibling_and_edit s = Inr s1
       \<and> root s1 = root s \<and> is_editing s1 = is_editing s)
   \<and> (get_selected_node s = Inr (s1, p, n) \<and> children n = [] \<longrightarrow>
       key_space s = Inr s1 \<and> root s1 = root s)"
proof (intro conjI impI)
  assume sel: "get_selected_node s = Inr (s1, [], n)"
  show "key_dd s = Inr s1" using sel by (simp add: key_dd_def)
  show "add_sibling_and_edit s = Inr s1" using sel by (simp add: add_sibling_and_edit_def)
  show "root s1 = root s" using sel by (rule get_selected_node_Inr(7))
  have "s1 = s\<lparr>selected_index := selected_index s1\<rparr>" using sel by (rule get_selected_node_Inr(1))
  then have "is_editing s1 = is_editing (s\<lparr>selected_index := selected_index s1\<rparr>)" by simp
  then show "is_editing s1 = is_editing s" by simp
next
  assume a: "get_selected_node s = Inr (s1, p, n) \<and> children n = []"
  then show "key_space s = Inr s1" by (simp add: key_space_def)
  show "root s1 = root s" using a get_selected_node_Inr(7) by blast
qed

theorem root_and_leaf_noops_witness:
  "get_selected_node (demo_state_at 0) = Inr (demo_state_at 0, [], demo_tree)
   \<and> key_dd (demo_state_at 0) = Inr (demo_state_at 0)
   \<and> add_sibling_and_edit (demo_state_at 0) = Inr (demo_state_at 0)
   \<and> get_selected_node (demo_state_at 2) = Inr (demo_state_at 2, [1], Node ''C'' [] False)
   \<and> children (Node ''C'' [] False) = []
   \<and> key_space (demo_state_at 2) = Inr (demo_state_at 2)"
proof -
  have a: "get_selected_node (demo_state_at 0) = Inr (demo_state_at 0, [], demo_tree)"
    and b: "get_selected_node (demo_state_at 2) = Inr (demo_state_at 2, [1], Node ''C'' [] False)"
    by (rule demo_selected)+
  have c: "children (Node ''C'' [] False) = []" by simp
  have "key_dd (demo_state_at 0) = Inr (demo_state_at 0)
      \<and> add_sibling_and_edit (demo_state_at 0) = Inr (demo_state_at 0)"
    using root_and_leaf_noops[where s = "demo_state_at 0" and ?s1.0 = "demo_state_at 0"
        and n = demo_tree] a by blast
  moreover have "key_space (demo_state_at 2) = Inr (demo_state_at 2)"
    using root_and_leaf_noops[where s = "demo_state_at 2" and ?s1.0 = "demo_state_at 2"
        and n = "Node ''C'' [] False" and p = "[1]"] b c by blast
  ultimately show ?thesis using a b c by blast
qed

subsection \<open>Text entry\<close>

lemma set_text_fun: "set_text t = (\<lambda>n. Node t (children n) (collapsed n))"
  by (rule ext) (simp add: set_text_def)

lemma commits_to_selected:
  assumes "get_selected_node s = Inr (s, q, m)" and "is_editing s"
  shows "commits_to s q"
proof -
  note g = get_selected_node_Inr[OF assms(1)]
  have sel: "get_selected_node (type_text t s) = Inr (type_text t s, q, m)" for t
    using get_selected_node_at[of "type_text t s"] g(2,3,4) by (simp add: type_text_def)
  have e: "key_enter (type_text t s)
      = Inr ((type_text t s)
               \<lparr>root := update_at q
                   (\<lambda>n. Node (if t = [] then ''Untitled'' else t) (children n) (collapsed n))
                   (root s),
                is_editing := False\<rparr>)" for t
    using assms(2) sel[of t]
    by (simp add: key_enter_def finish_edit_def type_text_def set_text_fun)
  have n: "node_at (update_at q
                   (\<lambda>n. Node (if t = [] then ''Untitled'' else t) (children n) (collapsed n))
                   (root s)) q
      = Some (Node (if t = [] then ''Untitled'' else t) (children m) (collapsed m))" for t
    using g(6) by (rule node_at_update_at_same)
  have c: "key_escape (type_text t s) = (type_text t s)\<lparr>is_editing := False\<rparr>" for t
    using assms(2) by (simp add: key_escape_def cancel_edit_def type_text_def)
  show ?thesis
    unfolding commits_to_def using assms(2) g(6) e n c by blast
qed

lemma key_e_result:
  assumes "get_selected_node s = Inr (s1, p, n)"
  shows "key_e s = Inr (s1\<lparr>is_editing := True, edit_input_text := node_text n\<rparr>)"
    and "get_selected_node (s1\<lparr>is_editing := True, edit_input_text := node_text n\<rparr>)
       = Inr (s1\<lparr>is_editing := True, edit_input_text := node_text n\<rparr>, p, n)"
proof -
  note g = get_selected_node_Inr[OF assms]
  show "key_e s = Inr (s1\<lparr>is_editing := True, edit_input_text := node_text n\<rparr>)"
    using assms by (simp add: key_e_def trigger_edit_def)
  show "get_selected_node (s1\<lparr>is_editing := True, edit_input_text := node_text n\<rparr>)
       = Inr (s1\<lparr>is_editing := True, edit_input_text := node_text n\<rparr>, p, n)"
    using get_selected_node_at[of "s1\<lparr>is_editing := True, edit_input_text := node_text n\<rparr>"]
      g(2,3,4,7) by simp
qed

text \<open>
  C6. From navigation mode each of the three bindings that open the text entry leaves a
  state in text-entry mode whose target is the node the entry was opened for: the
  selected node for rename, the new child for insert-child, the new sibling for
  insert-sibling (when the selected node is not the root). In such a state, for every
  typed text, enter returns to navigation mode with a tree in which the target has the
  typed text, or \<open>Untitled\<close> when that is empty, as its text and keeps its children and
  its collapsed flag, every other node being as before; and escape returns to navigation
  mode and changes nothing else.
\<close>

theorem text_entry_commit_cancel:
  assumes "\<not> is_editing s" and "get_selected_node s = Inr (s0, p, n)"
  shows "(\<exists>s1. key_e s = Inr s1 \<and> edit_input_text s1 = node_text n \<and> root s1 = root s
            \<and> commits_to s1 p)
     \<and> (\<exists>s1. add_child_and_edit s = Inr s1 \<and> edit_input_text s1 = []
            \<and> commits_to s1 (p @ [length (children n)]))
     \<and> (p \<noteq> [] \<longrightarrow>
          (\<exists>s1. key_enter s = Inr s1 \<and> edit_input_text s1 = []
            \<and> commits_to s1 (butlast p @ [Suc (last p)])))"
proof (intro conjI impI)
  note g = get_selected_node_Inr[OF assms(2)]
  let ?s1 = "s0\<lparr>is_editing := True, edit_input_text := node_text n\<rparr>"
  have "commits_to ?s1 p"
    using key_e_result(2)[OF assms(2)] by (rule commits_to_selected) simp
  moreover have "key_e s = Inr ?s1" using assms(2) by (rule key_e_result(1))
  moreover have "edit_input_text ?s1 = node_text n" "root ?s1 = root s" using g(7) by simp_all
  ultimately show "\<exists>s1. key_e s = Inr s1 \<and> edit_input_text s1 = node_text n \<and> root s1 = root s
            \<and> commits_to s1 p" by blast
next
  obtain i where i: "add_child_and_edit s =
       Inr (s0\<lparr>root := update_at p (\<lambda>n. Node (node_text n) (children n @ [new_node ''New Node'']) False)
                          (root s),
               selected_index := i, is_editing := True, edit_input_text := []\<rparr>)"
     "get_selected_node
          (s0\<lparr>root := update_at p (\<lambda>n. Node (node_text n) (children n @ [new_node ''New Node'']) False)
                          (root s),
               selected_index := i, is_editing := True, edit_input_text := []\<rparr>)
       = Inr (s0\<lparr>root := update_at p (\<lambda>n. Node (node_text n) (children n @ [new_node ''New Node'']) False)
                          (root s),
               selected_index := i, is_editing := True, edit_input_text := []\<rparr>,
              p @ [length (children n)], new_node ''New Node'')"
    using add_child_and_edit_result[OF assms(2)] by blast
  define s1 where "s1 = s0\<lparr>root := update_at p (\<lambda>n. Node (node_text n) (children n @ [new_node ''New Node'']) False)
                          (root s),
               selected_index := i, is_editing := True, edit_input_text := []\<rparr>"
  have a: "add_child_and_edit s = Inr s1" using i(1) by (simp add: s1_def)
  have b: "get_selected_node s1 = Inr (s1, p @ [length (children n)], new_node ''New Node'')"
    using i(2) by (simp add: s1_def)
  have "commits_to s1 (p @ [length (children n)])"
    using b by (rule commits_to_selected) (simp add: s1_def)
  moreover have "edit_input_text s1 = []" by (simp add: s1_def)
  ultimately show "\<exists>s1. add_child_and_edit s = Inr s1 \<and> edit_input_text s1 = []
            \<and> commits_to s1 (p @ [length (children n)])"
    using a by blast
next
  assume ne: "p \<noteq> []"
  let ?f = "\<lambda>m. set_children (list_insert (Suc (last p)) (new_node ''New Sibling'') (children m)) m"
  obtain i where i: "add_sibling_and_edit s =
       Inr (s0\<lparr>root := update_at (butlast p) ?f (root s),
               selected_index := i, is_editing := True, edit_input_text := []\<rparr>)"
     "get_selected_node
          (s0\<lparr>root := update_at (butlast p) ?f (root s),
               selected_index := i, is_editing := True, edit_input_text := []\<rparr>)
       = Inr (s0\<lparr>root := update_at (butlast p) ?f (root s),
               selected_index := i, is_editing := True, edit_input_text := []\<rparr>,
              butlast p @ [Suc (last p)], new_node ''New Sibling'')"
    using add_sibling_and_edit_result[OF assms(2) ne] by blast
  define s1 where "s1 = s0\<lparr>root := update_at (butlast p) ?f (root s),
               selected_index := i, is_editing := True, edit_input_text := []\<rparr>"
  have a: "key_enter s = Inr s1" using i(1) assms(1) by (simp add: s1_def key_enter_def)
  have b: "get_selected_node s1 = Inr (s1, butlast p @ [Suc (last p)], new_node ''New Sibling'')"
    using i(2) by (simp add: s1_def)
  have "commits_to s1 (butlast p @ [Suc (last p)])"
    using b by (rule commits_to_selected) (simp add: s1_def)
  moreover have "edit_input_text s1 = []" by (simp add: s1_def)
  ultimately show "\<exists>s1. key_enter s = Inr s1 \<and> edit_input_text s1 = []
            \<and> commits_to s1 (butlast p @ [Suc (last p)])"
    using a by blast
qed


theorem text_entry_commit_cancel_witness:
  "\<not> is_editing (demo_state_at 2)
   \<and> get_selected_node (demo_state_at 2) = Inr (demo_state_at 2, [1], Node ''C'' [] False)
   \<and> [1::nat] \<noteq> []
   \<and> (\<exists>s1. key_e (demo_state_at 2) = Inr s1
          \<and> edit_input_text s1 = node_text (Node ''C'' [] False)
          \<and> root s1 = root (demo_state_at 2) \<and> commits_to s1 [1]
          \<and> (\<exists>s2. key_enter (type_text ''zz'' s1) = Inr s2 \<and> \<not> is_editing s2
                \<and> root s2
                  = Node ''f'' [Node ''A'' [Node ''B'' [] False] True, Node ''zz'' [] False] False)
          \<and> (\<exists>s2. key_enter (type_text [] s1) = Inr s2 \<and> \<not> is_editing s2
                \<and> root s2
                  = Node ''f'' [Node ''A'' [Node ''B'' [] False] True, Node ''Untitled'' [] False]
                      False)
          \<and> root (key_escape (type_text ''zz'' s1)) = demo_tree
          \<and> \<not> is_editing (key_escape (type_text ''zz'' s1)))
   \<and> (\<exists>s1. add_child_and_edit (demo_state_at 2) = Inr s1 \<and> edit_input_text s1 = []
          \<and> commits_to s1 ([1] @ [length (children (Node ''C'' [] False))]))
   \<and> (\<exists>s1. key_enter (demo_state_at 2) = Inr s1 \<and> edit_input_text s1 = []
          \<and> commits_to s1 (butlast [1] @ [Suc (last [1])]))"
proof -
  have h1: "\<not> is_editing (demo_state_at 2)"
    by (simp add: demo_state_at_def demo_state_def)
  have h2: "get_selected_node (demo_state_at 2) = Inr (demo_state_at 2, [1], Node ''C'' [] False)"
    by (rule demo_selected)
  have h3: "[1::nat] \<noteq> []" by simp
  note t = text_entry_commit_cancel[OF h1 h2]
  obtain s1 where s1: "key_e (demo_state_at 2) = Inr s1"
      "edit_input_text s1 = node_text (Node ''C'' [] False)"
      "root s1 = root (demo_state_at 2)" "commits_to s1 [1]"
    using t by blast
  have r: "root s1 = demo_tree"
    using s1(3) by (simp add: demo_state_at_def demo_state_def)
  have en: "key_enter (type_text tx s1)
      = Inr ((type_text tx s1)
               \<lparr>root := update_at [1]
                   (\<lambda>n. Node (if tx = [] then ''Untitled'' else tx) (children n) (collapsed n))
                   (root s1),
                is_editing := False\<rparr>)"
    and es: "key_escape (type_text tx s1) = (type_text tx s1)\<lparr>is_editing := False\<rparr>" for tx
    using s1(4) unfolding commits_to_def by blast+
  have a: "\<exists>s2. key_enter (type_text ''zz'' s1) = Inr s2 \<and> \<not> is_editing s2
                \<and> root s2
                  = Node ''f'' [Node ''A'' [Node ''B'' [] False] True, Node ''zz'' [] False] False"
    unfolding en[of "''zz''"] r by (simp add: demo_tree_def)
  have b: "\<exists>s2. key_enter (type_text [] s1) = Inr s2 \<and> \<not> is_editing s2
                \<and> root s2
                  = Node ''f'' [Node ''A'' [Node ''B'' [] False] True, Node ''Untitled'' [] False]
                      False"
    unfolding en[of "[]"] r by (simp add: demo_tree_def)
  have c: "root (key_escape (type_text ''zz'' s1)) = demo_tree"
      "\<not> is_editing (key_escape (type_text ''zz'' s1))"
    unfolding es using r by (simp_all add: type_text_def)
  have first: "\<exists>s1. key_e (demo_state_at 2) = Inr s1
          \<and> edit_input_text s1 = node_text (Node ''C'' [] False)
          \<and> root s1 = root (demo_state_at 2) \<and> commits_to s1 [1]
          \<and> (\<exists>s2. key_enter (type_text ''zz'' s1) = Inr s2 \<and> \<not> is_editing s2
                \<and> root s2
                  = Node ''f'' [Node ''A'' [Node ''B'' [] False] True, Node ''zz'' [] False] False)
          \<and> (\<exists>s2. key_enter (type_text [] s1) = Inr s2 \<and> \<not> is_editing s2
                \<and> root s2
                  = Node ''f'' [Node ''A'' [Node ''B'' [] False] True, Node ''Untitled'' [] False]
                      False)
          \<and> root (key_escape (type_text ''zz'' s1)) = demo_tree
          \<and> \<not> is_editing (key_escape (type_text ''zz'' s1))"
    using s1 a b c by blast
  show ?thesis
    using t first h1 h2 h3 by blast
qed

section \<open>Properties of the export\<close>

lemma node_text_uncollapse: "node_text (uncollapse n) = node_text n"
  by (cases n) simp

lemma children_uncollapse: "children (uncollapse n) = map uncollapse (children n)"
  by (cases n) simp

lemma collapsed_uncollapse: "\<not> collapsed (uncollapse n)"
  by (cases n) simp

lemma node_at_uncollapse: "node_at (uncollapse n) p = map_option uncollapse (node_at n p)"
  by (induction p arbitrary: n) (simp_all add: children_uncollapse)

lemma visible_uncollapse: "visible (uncollapse n) p = (node_at n p \<noteq> None)"
  by (induction p arbitrary: n) (simp_all add: children_uncollapse collapsed_uncollapse)

lemma to_markdown_uncollapse_aux:
  "to_markdown (uncollapse n) level = to_markdown n level"
  "to_markdown_children (map uncollapse cs) level = to_markdown_children cs level"
  by (induction n level and cs level rule: to_markdown_to_markdown_children.induct) simp_all

text \<open>The lines of a subtree rendered at a level, read off the walk of the expanded tree.\<close>

lemma to_markdown_walk_aux:
  "0 < level \<longrightarrow> to_markdown n level
      = map (\<lambda>(p, m). replicate (nat level + length p) (CHR ''#'') @ '' '' @ node_text m)
          (walk (uncollapse n))"
  "0 \<le> level \<longrightarrow> (\<forall>k. to_markdown_children cs level
      = map (\<lambda>(p, m). replicate (nat level + length p) (CHR ''#'') @ '' '' @ node_text m)
          (walk_children k (map uncollapse cs)))"
proof (induction n level and cs level rule: to_markdown_to_markdown_children.induct)
  case (1 t cs c level)
  then show ?case by simp
next
  case (2 level)
  then show ?case by simp
next
  case (3 x xs level)
  show ?case
  proof (intro impI allI)
    fix k
    assume l: "0 \<le> level"
    have a: "to_markdown x (level + 1)
      = map (\<lambda>(p, m). replicate (nat (level + 1) + length p) (CHR ''#'') @ '' '' @ node_text m)
          (walk (uncollapse x))"
      using 3(1) l by simp
    have b: "to_markdown_children xs level
      = map (\<lambda>(p, m). replicate (nat level + length p) (CHR ''#'') @ '' '' @ node_text m)
          (walk_children (Suc k) (map uncollapse xs))"
      using 3(2) l by simp
    have c: "nat (level + 1) = Suc (nat level)" using l by simp
    show "to_markdown_children (x # xs) level
      = map (\<lambda>(p, m). replicate (nat level + length p) (CHR ''#'') @ '' '' @ node_text m)
          (walk_children k (map uncollapse (x # xs)))"
      by (simp add: a b c case_prod_unfold comp_def)
  qed
qed

lemma to_markdown_root:
  "to_markdown rt 0
     = map (\<lambda>(p, m). replicate (length p) (CHR ''#'') @ '' '' @ node_text m)
         (tl (walk (uncollapse rt)))"
proof (cases rt)
  case (Node t cs c)
  then show ?thesis using to_markdown_walk_aux(2)[of 0 cs] by simp
qed

lemma walk_uncollapse_text:
  assumes "(p, m) \<in> set (walk (uncollapse rt))"
  shows "node_at rt p \<noteq> None
     \<and> node_text m = (case node_at rt p of Some x \<Rightarrow> node_text x | None \<Rightarrow> [])"
proof -
  have "node_at (uncollapse rt) p = Some m" using assms by (simp add: walk_iff)
  then obtain x where "node_at rt p = Some x" "m = uncollapse x"
    by (auto simp: node_at_uncollapse)
  then show ?thesis by (simp add: node_text_uncollapse)
qed

lemma refs_uncollapse: "set (map fst (walk (uncollapse rt))) = {p. node_at rt p \<noteq> None}"
proof -
  have "(p \<in> set (map fst (walk (uncollapse rt)))) = (node_at rt p \<noteq> None)" for p
  proof
    assume "p \<in> set (map fst (walk (uncollapse rt)))"
    then obtain m where "(p, m) \<in> set (walk (uncollapse rt))" by auto
    then show "node_at rt p \<noteq> None" using walk_uncollapse_text by blast
  next
    assume "node_at rt p \<noteq> None"
    then obtain x where x: "node_at rt p = Some x" by auto
    then have "(p, uncollapse x) \<in> set (walk (uncollapse rt))"
      by (simp add: walk_iff visible_uncollapse node_at_uncollapse)
    then show "p \<in> set (map fst (walk (uncollapse rt)))" by force
  qed
  then show ?thesis by blast
qed

text \<open>
  C4. For every tree the exported lines are, one for one and in order, the lines of the
  nodes other than the root, taken in pre-order document order (a node before its
  descendants, the subtree of a child before every later child of the same parent,
  children in list order), each node once; the line of the node at depth \<open>d\<close>, the
  length of its reference, is \<open>d\<close> marker characters, one space and the node's text.
\<close>

theorem to_markdown_format:
  "\<exists>ps. set ps = {p. p \<noteq> [] \<and> node_at rt p \<noteq> None}
      \<and> distinct ps \<and> sorted_wrt before ps
      \<and> to_markdown rt 0
          = map (\<lambda>p. replicate (length p) (CHR ''#'') @ '' ''
                    @ (case node_at rt p of Some x \<Rightarrow> node_text x | None \<Rightarrow> [])) ps"
proof -
  let ?W = "walk (uncollapse rt)"
  let ?ps = "map fst (tl ?W)"
  have W: "map fst ?W = [] # ?ps"
    using walk_hd[of "uncollapse rt"] walk_not_Nil[of "uncollapse rt"]
    by (cases "walk (uncollapse rt)") simp_all
  have d: "distinct ([] # ?ps)" and so: "sorted_wrt before ([] # ?ps)"
    using distinct_walk[of "uncollapse rt"] sorted_walk[of "uncollapse rt"] unfolding W by simp_all
  have "set ([] # ?ps) = {p. node_at rt p \<noteq> None}"
    using refs_uncollapse[of rt] unfolding W .
  moreover have "[] \<notin> set ?ps" using d by simp
  ultimately have s: "set ?ps = {p. p \<noteq> [] \<and> node_at rt p \<noteq> None}"
    by (simp del: set_map) blast
  have "set (tl ?W) \<subseteq> set ?W" by (cases "walk (uncollapse rt)") auto
  then have ntx: "node_text m = (case node_at rt p of Some x \<Rightarrow> node_text x | None \<Rightarrow> [])"
    if "(p, m) \<in> set (tl ?W)" for p m
    using that walk_uncollapse_text by blast
  have "to_markdown rt 0
      = map (\<lambda>(p, m). replicate (length p) (CHR ''#'') @ '' '' @ node_text m) (tl ?W)"
    by (rule to_markdown_root)
  also have "\<dots> = map (\<lambda>e. replicate (length (fst e)) (CHR ''#'') @ '' ''
                    @ (case node_at rt (fst e) of Some x \<Rightarrow> node_text x | None \<Rightarrow> [])) (tl ?W)"
    by (rule map_cong) (auto simp: ntx)
  also have "\<dots> = map (\<lambda>p. replicate (length p) (CHR ''#'') @ '' ''
                    @ (case node_at rt p of Some x \<Rightarrow> node_text x | None \<Rightarrow> [])) ?ps"
    by (simp add: comp_def)
  finally have m: "to_markdown rt 0 = map (\<lambda>p. replicate (length p) (CHR ''#'') @ '' ''
                    @ (case node_at rt p of Some x \<Rightarrow> node_text x | None \<Rightarrow> [])) ?ps" .
  have d': "distinct ?ps" and so': "sorted_wrt before ?ps" using d so by simp_all
  show ?thesis
    by (rule exI[of _ ?ps]) (intro conjI s d' so' m)
qed

section \<open>Properties of the import\<close>

lemma uncollapse_fixed_children:
  "(uncollapse n = n) = (\<not> collapsed n \<and> map uncollapse (children n) = children n)"
  by (cases n) auto

lemma uncollapse_fixed_node_at:
  "uncollapse n = n \<Longrightarrow> node_at n p = Some m \<Longrightarrow> \<not> collapsed m"
proof (induction p arbitrary: n)
  case Nil
  then show ?case by (simp add: uncollapse_fixed_children)
next
  case (Cons i p)
  have i: "i < length (children n)" and m: "node_at (children n ! i) p = Some m"
    using Cons.prems(2) by (simp_all split: if_splits)
  have "map uncollapse (children n) ! i = children n ! i"
    using Cons.prems(1) by (simp add: uncollapse_fixed_children)
  then have "uncollapse (children n ! i) = children n ! i" using i by simp
  then show ?case using m by (rule Cons.IH)
qed

lemma uncollapse_append_child:
  "uncollapse n = n \<Longrightarrow>
     uncollapse (update_at p (\<lambda>x. set_children (children x @ [new_node t]) x) n)
       = update_at p (\<lambda>x. set_children (children x @ [new_node t]) x) n"
proof (induction p arbitrary: n)
  case Nil
  then show ?case
    by (cases n) (simp add: set_children_def new_node_def)
next
  case (Cons i p)
  obtain tx cs c where n: "n = Node tx cs c" by (cases n)
  have fx: "\<not> c" "map uncollapse cs = cs" using Cons.prems n by simp_all
  show ?case
  proof (cases "i < length cs")
    case True
    have "map uncollapse cs ! i = cs ! i" using fx by simp
    then have "uncollapse (cs ! i) = cs ! i" using True by simp
    then have "uncollapse (update_at p (\<lambda>x. set_children (children x @ [new_node t]) x) (cs ! i))
        = update_at p (\<lambda>x. set_children (children x @ [new_node t]) x) (cs ! i)"
      by (rule Cons.IH)
    then show ?thesis using n fx by (simp add: map_update)
  next
    case False
    then show ?thesis using n fx by (simp add: list_update_beyond)
  qed
qed

text \<open>One round of the loop, for a token that is not a heading and for one that is.\<close>

lemma parse_loop_other:
  "token_type tok \<noteq> ''heading_open'' \<Longrightarrow>
     parse_loop (tok # rest) rt stack = parse_loop rest rt stack"
  by simp

lemma parse_loop_heading:
  assumes "token_type tok = ''heading_open''"
    and "heading_level (tag tok) = Inr level"
    and "rest = nxt # rest'"
    and "pop_stack level stack = (l, parent) # st"
    and "node_at rt parent = Some pn"
  shows "parse_loop (tok # rest) rt stack
     = parse_loop rest
         (update_at parent (\<lambda>n. set_children (children n @ [new_node (content nxt)]) n) rt)
         ((level, parent @ [length (children pn)]) # (l, parent) # st)"
  using assms by simp

lemma parse_loop_heading_Inr:
  assumes "token_type tok = ''heading_open''"
    and "parse_loop (tok # rest) rt stack = Inr t"
  shows "\<exists>level nxt rest' l parent st pn.
      heading_level (tag tok) = Inr level \<and> rest = nxt # rest'
      \<and> pop_stack level stack = (l, parent) # st \<and> node_at rt parent = Some pn"
proof -
  obtain level where a: "heading_level (tag tok) = Inr level"
    using assms by (cases "heading_level (tag tok)") simp_all
  obtain nxt rest' where b: "rest = nxt # rest'"
    using assms a by (cases rest) simp_all
  obtain l parent st where c: "pop_stack level stack = (l, parent) # st"
    using assms a b by (cases "pop_stack level stack") auto
  obtain pn where d: "node_at rt parent = Some pn"
    using assms a b c by (cases "node_at rt parent") simp_all
  show ?thesis using a b c d by blast
qed

declare parse_loop.simps(2) [simp del]

lemma parse_loop_uncollapsed:
  "parse_loop toks rt stack = Inr t \<Longrightarrow> uncollapse rt = rt \<Longrightarrow> uncollapse t = t"
proof (induction toks arbitrary: rt stack)
  case Nil
  then show ?case by simp
next
  case (Cons tok rest)
  show ?case
  proof (cases "token_type tok = ''heading_open''")
    case False
    then show ?thesis using Cons by (simp add: parse_loop_other)
  next
    case True
    obtain level nxt rest' l parent st pn where
      a: "heading_level (tag tok) = Inr level" "rest = nxt # rest'"
         "pop_stack level stack = (l, parent) # st" "node_at rt parent = Some pn"
      using parse_loop_heading_Inr[OF True Cons.prems(1)] by blast
    let ?rt = "update_at parent (\<lambda>n. set_children (children n @ [new_node (content nxt)]) n) rt"
    have r: "parse_loop rest ?rt ((level, parent @ [length (children pn)]) # (l, parent) # st) = Inr t"
      using Cons.prems(1) unfolding parse_loop_heading[OF True a] .
    have "uncollapse ?rt = ?rt"
      using Cons.prems(2) by (rule uncollapse_append_child)
    with r show ?thesis by (rule Cons.IH)
  qed
qed

text \<open>
  C10. Two trees that differ in collapsed flags only are exported to the same lines, at
  every level; and in every tree that \<open>parse_md\<close> returns, every node has its collapsed
  flag false.
\<close>

theorem collapse_not_persisted:
  "(uncollapse a = uncollapse b \<longrightarrow> to_markdown a level = to_markdown b level)
   \<and> (parse_md tokens fname = Inr t \<longrightarrow>
        uncollapse t = t \<and> (\<forall>p m. node_at t p = Some m \<longrightarrow> \<not> collapsed m))"
proof (intro conjI impI allI)
  assume "uncollapse a = uncollapse b"
  then show "to_markdown a level = to_markdown b level"
    using to_markdown_uncollapse_aux(1)[of a level] to_markdown_uncollapse_aux(1)[of b level]
    by simp
next
  assume p: "parse_md tokens fname = Inr t"
  show u: "uncollapse t = t"
    using p unfolding parse_md_def by (rule parse_loop_uncollapsed) (simp add: new_node_def)
  fix p m assume "node_at t p = Some m"
  with u show "\<not> collapsed m" by (rule uncollapse_fixed_node_at)
qed


lemma demo_tokens_parse: "parse_md demo_tokens ''f'' = Inr (Node ''f'' [Node ''A'' [] False] False)"
  by (simp add: parse_md_def demo_tokens_def parse_loop.simps(2) heading_level_def digit_of_def
      new_node_def basename_def set_children_def)

theorem collapse_not_persisted_witness:
  "uncollapse demo_tree
     = uncollapse (Node ''f'' [Node ''A'' [Node ''B'' [] False] False, Node ''C'' [] True] True)
   \<and> to_markdown demo_tree 0
     = to_markdown (Node ''f'' [Node ''A'' [Node ''B'' [] False] False, Node ''C'' [] True] True) 0
   \<and> parse_md demo_tokens ''f'' = Inr (Node ''f'' [Node ''A'' [] False] False)
   \<and> node_at (Node ''f'' [Node ''A'' [] False] False) [0] = Some (Node ''A'' [] False)
   \<and> \<not> collapsed (Node ''A'' [] False)"
proof -
  have h1: "uncollapse demo_tree
     = uncollapse (Node ''f'' [Node ''A'' [Node ''B'' [] False] False, Node ''C'' [] True] True)"
    by (simp add: demo_tree_def)
  have h2: "parse_md demo_tokens ''f'' = Inr (Node ''f'' [Node ''A'' [] False] False)"
    by (rule demo_tokens_parse)
  have h3: "node_at (Node ''f'' [Node ''A'' [] False] False) [0] = Some (Node ''A'' [] False)"
    by simp
  note t = collapse_not_persisted[of demo_tree
      "Node ''f'' [Node ''A'' [Node ''B'' [] False] False, Node ''C'' [] True] True" 0
      demo_tokens "''f''" "Node ''f'' [Node ''A'' [] False] False"]
  have "to_markdown demo_tree 0
     = to_markdown (Node ''f'' [Node ''A'' [Node ''B'' [] False] False, Node ''C'' [] True] True) 0"
    using t h1 by blast
  moreover have "\<not> collapsed (Node ''A'' [] False)"
    using t h2 h3 by blast
  ultimately show ?thesis using h1 h2 h3 by blast
qed

subsection \<open>The stack of the import loop\<close>

lemma pop_stack_dropWhile: "pop_stack level st = dropWhile (\<lambda>e. level \<le> fst e) st"
  by (induction st) auto

lemma dropWhile_weaker:
  "(\<And>x. P x \<Longrightarrow> Q x) \<Longrightarrow> dropWhile Q (dropWhile P xs) = dropWhile Q xs"
  by (induction xs) auto

lemma chain_not_Nil: "chain h \<noteq> []"
  by (cases h) auto

lemma pop_chain:
  "0 < level \<Longrightarrow> pop_stack level (chain h) = chain (dropWhile (\<lambda>e. level \<le> fst e) h)"
proof (induction "length h" arbitrary: h level rule: less_induct)
  case less
  show ?case
  proof (cases h)
    case Nil
    then show ?thesis using less.prems by simp
  next
    case (Cons e h')
    obtain l p where e: "e = (l, p)" by (cases e)
    show ?thesis
    proof (cases "level \<le> l")
      case False
      then show ?thesis using Cons e by simp
    next
      case True
      then have l: "0 < l" using less.prems by simp
      have a: "pop_stack l (chain h') = chain (dropWhile (\<lambda>e. l \<le> fst e) h')"
        using less.hyps[of h' l] l Cons by simp
      have "length (dropWhile (\<lambda>e. l \<le> fst e) h') < length h"
        using Cons length_dropWhile_le[of "\<lambda>e. l \<le> fst e" h'] by simp
      then have b: "pop_stack level (chain (dropWhile (\<lambda>e. l \<le> fst e) h'))
          = chain (dropWhile (\<lambda>e. level \<le> fst e) (dropWhile (\<lambda>e. l \<le> fst e) h'))"
        using less.hyps less.prems by blast
      have c: "dropWhile (\<lambda>e. level \<le> fst e) (dropWhile (\<lambda>e. l \<le> fst e) h')
          = dropWhile (\<lambda>e. level \<le> fst e) h'"
        using True by (intro dropWhile_weaker) simp
      show ?thesis using Cons e True a b c by simp
    qed
  qed
qed

lemma hd_chain_nearest:
  "snd (hd (chain (dropWhile (\<lambda>e. level \<le> fst e) h))) = nearest level h"
proof -
  have f: "find (\<lambda>e. fst e < level) h
      = (case dropWhile (\<lambda>e. level \<le> fst e) h of [] \<Rightarrow> None | x # _ \<Rightarrow> Some x)"
    by (simp add: find_dropWhile comp_def not_less)
  show ?thesis
  proof (cases "dropWhile (\<lambda>e. level \<le> fst e) h")
    case Nil
    show ?thesis unfolding nearest_def f Nil by simp
  next
    case (Cons x xs)
    show ?thesis unfolding nearest_def f Cons by (cases x) simp
  qed
qed

lemma pop_stack_suffix: "\<exists>pre. st = pre @ pop_stack level st"
  unfolding pop_stack_dropWhile
  by (metis takeWhile_dropWhile_id)

subsection \<open>The right edge of the tree\<close>

lemma rightmost_node_at: "rightmost n p \<Longrightarrow> \<exists>m. node_at n p = Some m"
  by (induction p arbitrary: n) auto

lemma rightmost_prefix:
  "rightmost n p \<Longrightarrow> rightmost n q \<Longrightarrow> length q \<le> length p \<Longrightarrow> \<exists>r. p = q @ r"
proof (induction q arbitrary: n p)
  case Nil
  then show ?case by simp
next
  case (Cons i q)
  then obtain j p' where p: "p = j # p'" by (cases p) auto
  have "i = j" using Cons.prems p by simp
  moreover have "\<exists>r. p' = q @ r"
    using Cons.IH[of "children n ! i" p'] Cons.prems p \<open>i = j\<close> by simp
  ultimately show ?case using p by auto
qed

lemma rightmost_update_below:
  "rightmost n (q @ r) \<Longrightarrow> rightmost (update_at (q @ r) f n) q"
  by (induction q arbitrary: n) auto

lemma rightmost_new_child:
  "rightmost n p \<Longrightarrow> node_at n p = Some pn \<Longrightarrow>
     rightmost (update_at p (\<lambda>x. set_children (children x @ [c]) x) n) (p @ [length (children pn)])"
  by (induction p arbitrary: n) (auto simp: set_children_def split: if_splits)


lemma outline_Node:
  "outline (Node t cs c)
     = ([], t) # map (\<lambda>e. (fst e, node_text (snd e))) (walk_children 0 (map uncollapse cs))"
  by (simp add: outline_def)

lemma outline_shift:
  "map (\<lambda>e. (fst e, node_text (snd e))) (map (\<lambda>(p, m). (i # p, m)) xs)
     = map (\<lambda>(p, t). (i # p, t)) (map (\<lambda>e. (fst e, node_text (snd e))) xs)"
  by (induction xs) auto

lemma outline_new_child:
  "rightmost n p \<Longrightarrow> node_at n p = Some pn \<Longrightarrow>
     outline (update_at p (\<lambda>x. set_children (children x @ [new_node t]) x) n)
       = outline n @ [(p @ [length (children pn)], t)]"
proof (induction p arbitrary: n)
  case Nil
  obtain tx cs c where n: "n = Node tx cs c" by (cases n)
  have "pn = n" using Nil by simp
  then show ?case
    using n by (simp add: outline_Node set_children_def new_node_def walk_children_append)
next
  case (Cons i p)
  obtain tx cs c where n: "n = Node tx cs c" by (cases n)
  let ?f = "\<lambda>x. set_children (children x @ [new_node t]) x"
  let ?g = "\<lambda>e. (fst e, node_text (snd e))"
  have i: "Suc i = length cs" and r: "rightmost (cs ! i) p" using Cons.prems(1) n by simp_all
  have na: "node_at (cs ! i) p = Some pn" using Cons.prems(2) n i by (simp split: if_splits)
  have ih: "outline (update_at p ?f (cs ! i)) = outline (cs ! i) @ [(p @ [length (children pn)], t)]"
    using r na by (rule Cons.IH)
  have cs: "cs = take i cs @ [cs ! i]"
    using i by (metis lessI take_Suc_conv_app_nth take_all order_refl)
  have up: "cs[i := update_at p ?f (cs ! i)] = take i cs @ [update_at p ?f (cs ! i)]"
    using i by (simp add: upd_conv_take_nth_drop)
  have len: "length (map uncollapse (take i cs)) = i" using i by simp
  have w: "map ?g (walk_children 0 (map uncollapse (take i cs @ [x])))
      = map ?g (walk_children 0 (map uncollapse (take i cs)))
        @ map (\<lambda>(p, t). (i # p, t)) (outline x)" for x
  proof -
    have "walk_children 0 (map uncollapse (take i cs @ [x]))
        = walk_children 0 (map uncollapse (take i cs))
          @ map (\<lambda>(p, m). (i # p, m)) (walk (uncollapse x))"
      using len by (simp add: walk_children_append)
    then show ?thesis
      by (simp only: map_append outline_shift outline_def)
  qed
  have "outline (update_at (i # p) ?f n)
      = ([], tx) # map ?g (walk_children 0 (map uncollapse (take i cs @ [update_at p ?f (cs ! i)])))"
    using n up by (simp add: outline_Node)
  also have "\<dots> = ([], tx) # map ?g (walk_children 0 (map uncollapse (take i cs)))
        @ map (\<lambda>(p, t). (i # p, t)) (outline (cs ! i) @ [(p @ [length (children pn)], t)])"
    unfolding w ih by simp
  also have "\<dots> = (([], tx) # map ?g (walk_children 0 (map uncollapse (take i cs @ [cs ! i]))))
        @ [((i # p) @ [length (children pn)], t)]"
    unfolding w by simp
  also have "\<dots> = outline n @ [((i # p) @ [length (children pn)], t)]"
    using n cs by (simp add: outline_Node)
  finally show ?case .
qed

lemma outline_not_Nil: "outline n \<noteq> []"
  by (simp add: outline_def walk_not_Nil)


subsection \<open>The loop invariant\<close>

lemma parse_inv_step:
  assumes inv: "parse_inv rt stack h hs" and lv: "0 < level"
  shows "\<exists>l parent st pn. pop_stack level stack = (l, parent) # st
     \<and> node_at rt parent = Some pn
     \<and> hd (outline (update_at parent (\<lambda>n. set_children (children n @ [new_node t]) n) rt))
         = hd (outline rt)
     \<and> parse_inv (update_at parent (\<lambda>n. set_children (children n @ [new_node t]) n) rt)
           ((level, parent @ [length (children pn)]) # (l, parent) # st)
           ((level, parent @ [length (children pn)]) # h) (hs @ [(level, t)])"
proof -
  have st: "stack = chain h"
    and rm: "list_all (\<lambda>e. rightmost rt (snd e)) stack"
    and so: "sorted_wrt (\<lambda>a b. length (snd b) < length (snd a)) stack"
    and o1: "map fst (tl (outline rt)) = rev (map snd h)"
    and o2: "map snd (tl (outline rt)) = map snd hs"
    and lv2: "map fst hs = rev (map fst h)"
    and po: "parents_ok h"
    using inv unfolding parse_inv_def by blast+
  have pc: "pop_stack level stack = chain (dropWhile (\<lambda>e. level \<le> fst e) h)"
    unfolding st using lv by (rule pop_chain)
  have "pop_stack level stack \<noteq> []"
    unfolding pc by (rule chain_not_Nil)
  then obtain e st' where pe: "pop_stack level stack = e # st'"
    by (cases "pop_stack level stack") blast+
  obtain l parent where e: "e = (l, parent)" by (cases e)
  have pp: "pop_stack level stack = (l, parent) # st'" using pe e by simp
  have ch: "chain (dropWhile (\<lambda>e. level \<le> fst e) h) = (l, parent) # st'"
    using pc pp by simp
  have near: "parent = nearest level h"
    using hd_chain_nearest[of level h] unfolding ch by simp
  obtain pre where pre: "stack = pre @ (l, parent) # st'"
    using pop_stack_suffix[of stack level] pp by auto
  have rm': "list_all (\<lambda>e. rightmost rt (snd e)) ((l, parent) # st')"
    using rm unfolding pre by simp
  have so': "sorted_wrt (\<lambda>a b. length (snd b) < length (snd a)) ((l, parent) # st')"
    using so unfolding pre by (simp add: sorted_wrt_append)
  have rp: "rightmost rt parent" using rm' by simp
  then obtain pn where pn: "node_at rt parent = Some pn" using rightmost_node_at by blast
  let ?f = "\<lambda>n. set_children (children n @ [new_node t]) n"
  let ?rt = "update_at parent ?f rt"
  let ?new = "parent @ [length (children pn)]"
  have shorter: "length (snd b) \<le> length parent" if "b \<in> set ((l, parent) # st')" for b
    using that so' by auto
  have a1: "(level, ?new) # (l, parent) # st' = chain ((level, ?new) # h)"
    using pp st by simp
  have a2: "list_all (\<lambda>e. rightmost ?rt (snd e)) ((level, ?new) # (l, parent) # st')"
  proof -
    have "rightmost ?rt ?new" using rp pn by (rule rightmost_new_child)
    moreover have "rightmost ?rt (snd b)" if b: "b \<in> set ((l, parent) # st')" for b
    proof -
      have "rightmost rt (snd b)" using rm' b by (auto simp: list_all_iff)
      then obtain r where "parent = snd b @ r"
        using rightmost_prefix[OF rp _ shorter[OF b]] by blast
      then show ?thesis using rp rightmost_update_below[of rt "snd b" r ?f] by simp
    qed
    ultimately show ?thesis by (simp add: list_all_iff)
  qed
  have a3: "sorted_wrt (\<lambda>a b. length (snd b) < length (snd a)) ((level, ?new) # (l, parent) # st')"
  proof -
    have "length (snd b) < length ?new" if "b \<in> set ((l, parent) # st')" for b
      using shorter[OF that] by simp
    then show ?thesis using so' by auto
  qed
  have out: "tl (outline ?rt) = tl (outline rt) @ [(?new, t)]"
    using outline_new_child[OF rp pn, of t] outline_not_Nil[of rt] by simp
  have out_hd: "hd (outline ?rt) = hd (outline rt)"
    using outline_new_child[OF rp pn, of t] outline_not_Nil[of rt] by simp
  have a4: "map fst (tl (outline ?rt)) = rev (map snd ((level, ?new) # h))"
    unfolding out using o1 by simp
  have a5: "map snd (tl (outline ?rt)) = map snd (hs @ [(level, t)])"
    unfolding out using o2 by simp
  have a6: "map fst (hs @ [(level, t)]) = rev (map fst ((level, ?new) # h))"
    using lv2 by simp
  have a7: "parents_ok ((level, ?new) # h)"
    using po near by simp
  have "parse_inv ?rt ((level, ?new) # (l, parent) # st') ((level, ?new) # h) (hs @ [(level, t)])"
    unfolding parse_inv_def using a1 a2 a3 a4 a5 a6 a7 by blast
  then show ?thesis using pp pn out_hd by blast
qed

lemma parse_loop_inv:
  "wf_headings toks \<Longrightarrow> parse_inv rt stack h hs \<Longrightarrow>
     \<exists>T stack' h'. parse_loop toks rt stack = Inr T
        \<and> hd (outline T) = hd (outline rt)
        \<and> parse_inv T stack' h' (hs @ heading_list toks)"
proof (induction toks arbitrary: rt stack h hs)
  case Nil
  then show ?case by auto
next
  case (Cons tok rest)
  have wr: "wf_headings rest" using Cons.prems(1) by simp
  show ?case
  proof (cases "token_type tok = ''heading_open''")
    case False
    then have "heading_list (tok # rest) = heading_list rest" by simp
    then show ?thesis
      using Cons.IH[OF wr Cons.prems(2)] False by (simp add: parse_loop_other)
  next
    case True
    obtain nxt rest' where rest: "rest = nxt # rest'"
      using Cons.prems(1) True by (cases rest) simp_all
    obtain level where level: "heading_level (tag tok) = Inr level" "0 < level"
      using Cons.prems(1) True by (cases "heading_level (tag tok)") simp_all
    let ?f = "\<lambda>n. set_children (children n @ [new_node (content nxt)]) n"
    obtain l parent st pn where
      p: "pop_stack level stack = (l, parent) # st" "node_at rt parent = Some pn"
      and oh: "hd (outline (update_at parent ?f rt)) = hd (outline rt)"
      and inv: "parse_inv (update_at parent ?f rt)
           ((level, parent @ [length (children pn)]) # (l, parent) # st)
           ((level, parent @ [length (children pn)]) # h) (hs @ [(level, content nxt)])"
      using parse_inv_step[OF Cons.prems(2) level(2), of "content nxt"] by blast
    have hl: "heading_list (tok # rest) = (level, content nxt) # heading_list rest"
      using True level rest by simp
    have "parse_loop (tok # rest) rt stack
        = parse_loop rest (update_at parent ?f rt)
            ((level, parent @ [length (children pn)]) # (l, parent) # st)"
      using True level(1) rest p by (rule parse_loop_heading)
    then show ?thesis
      using Cons.IH[OF wr inv] hl oh by simp
  qed
qed

lemma parents_ok_split:
  "parents_ok (a @ e # b) \<Longrightarrow> snd e \<noteq> [] \<and> butlast (snd e) = nearest (fst e) b"
proof (induction a)
  case Nil
  then show ?case by (cases e) simp
next
  case (Cons x a)
  then show ?case by (cases x) simp
qed

lemma parents_ok_nth:
  assumes "parents_ok h" and "k < length h"
  shows "snd (rev h ! k) \<noteq> []
     \<and> butlast (snd (rev h ! k)) = nearest (fst (rev h ! k)) (rev (take k (rev h)))"
proof -
  let ?j = "length h - Suc k"
  have j: "?j < length h" using assms(2) by simp
  have h: "h = take ?j h @ h ! ?j # drop (Suc ?j) h"
    using j by (rule id_take_nth_drop)
  have r: "rev h ! k = h ! ?j" using assms(2) by (simp add: rev_nth)
  have "Suc ?j = length h - k" using assms(2) by simp
  then have t: "rev (take k (rev h)) = drop (Suc ?j) h" by (simp add: take_rev)
  have "parents_ok (take ?j h @ h ! ?j # drop (Suc ?j) h)" using assms(1) h by simp
  then show ?thesis unfolding r t by (rule parents_ok_split)
qed


declare show_nat.simps [simp del]

lemma show_nat_digit: "n < 10 \<Longrightarrow> show_nat n = [digit_char n]"
  by (simp add: show_nat.simps)

lemma digit_of_digit_char: "d < 10 \<Longrightarrow> digit_of (digit_char d) = Some (int d)"
proof -
  assume "d < 10"
  then have "d = 0 \<or> d = 1 \<or> d = 2 \<or> d = 3 \<or> d = 4 \<or> d = 5 \<or> d = 6 \<or> d = 7
      \<or> d = 8 \<or> d = 9" by arith
  then show ?thesis
    by (elim disjE) (simp_all add: digit_of_def digit_char_def)
qed

lemma heading_level_digit:
  "0 < k \<Longrightarrow> k < 10 \<Longrightarrow> heading_level (''h'' @ show_nat k) = Inr (int k)"
  by (simp add: heading_level_def show_nat_digit digit_of_digit_char)

text \<open>
  C3. For every token list in which each heading token carries a level of at least one
  and is followed by a token, \<open>parse_md\<close> returns a tree. Its nodes other than the root,
  taken in document order, are the headings in their order, with the headings' texts;
  and the parent of the node of the \<open>k\<close>-th heading is the node of the nearest
  preceding heading with a strictly smaller level, the root when there is none.
\<close>

theorem parse_md_nesting:
  assumes "wf_headings tokens"
  shows "\<exists>T. parse_md tokens fname = Inr T
     \<and> hd (outline T) = ([], basename fname)
     \<and> map snd (tl (outline T)) = map snd (heading_list tokens)
     \<and> (\<forall>k < length (heading_list tokens).
          fst (tl (outline T) ! k) \<noteq> []
          \<and> butlast (fst (tl (outline T) ! k))
              = nearest (fst (heading_list tokens ! k))
                  (rev (take k (zip (map fst (heading_list tokens))
                                    (map fst (tl (outline T)))))))"
proof -
  let ?rt = "new_node (basename fname)"
  have "parse_inv ?rt [(0, [])] [] []"
    by (simp add: parse_inv_def outline_def new_node_def)
  then obtain T stack h where T: "parse_loop tokens ?rt [(0, [])] = Inr T"
    and oh: "hd (outline T) = hd (outline ?rt)"
    and inv: "parse_inv T stack h ([] @ heading_list tokens)"
    using parse_loop_inv[OF assms] by blast
  let ?hs = "heading_list tokens"
  let ?W = "tl (outline T)"
  have o1: "map fst ?W = rev (map snd h)"
    and o2: "map snd ?W = map snd ?hs"
    and lv: "map fst ?hs = rev (map fst h)"
    and po: "parents_ok h"
    using inv unfolding parse_inv_def by simp_all
  have len: "length ?hs = length h" "length ?W = length h"
    using lv o1 by (metis length_map length_rev)+
  have z: "zip (map fst ?hs) (map fst ?W) = rev h"
    unfolding o1 lv by (simp add: zip_rev zip_map_fst_snd)
  have nth: "fst (?W ! k) \<noteq> []
      \<and> butlast (fst (?W ! k)) = nearest (fst (?hs ! k)) (rev (take k (zip (map fst ?hs) (map fst ?W))))"
    if k: "k < length ?hs" for k
  proof -
    have kh: "k < length h" using k len by simp
    have "fst (?W ! k) = map fst ?W ! k" using kh len by simp
    also have "\<dots> = map snd (rev h) ! k" unfolding o1 by (simp add: rev_map)
    finally have a: "fst (?W ! k) = snd (rev h ! k)" using kh by simp
    have "fst (?hs ! k) = map fst ?hs ! k" using kh len by simp
    also have "\<dots> = map fst (rev h) ! k" unfolding lv by (simp add: rev_map)
    finally have b: "fst (?hs ! k) = fst (rev h ! k)" using kh by simp
    show ?thesis
      unfolding a b z using parents_ok_nth[OF po kh] .
  qed
  have hdT: "hd (outline T) = ([], basename fname)"
    unfolding oh by (simp add: outline_def new_node_def)
  show ?thesis
    using T hdT o2 nth unfolding parse_md_def by blast
qed


lemma demo_document_export:
  "to_markdown (Node ''mindmap.md''
         [Node ''A'' [Node ''B'' [] False, Node ''C'' [Node ''D'' [] False] False] False,
          Node ''E'' [] False] False) 0
     = [''# A'', ''## B'', ''## C'', ''### D'', ''# E'']"
  by code_simp

lemma demo_jump_parse:
  "parse_md demo_jump_tokens ''f''
     = Inr (Node ''f'' [Node ''A'' [Node ''B'' [] False, Node ''C'' [] False] False] False)"
  by code_simp

theorem parse_md_nesting_witness:
  "wf_headings demo_jump_tokens
   \<and> parse_md demo_jump_tokens ''f''
       = Inr (Node ''f'' [Node ''A'' [Node ''B'' [] False, Node ''C'' [] False] False] False)
   \<and> heading_list demo_jump_tokens = [(1, ''A''), (3, ''B''), (2, ''C'')]
   \<and> tl (outline (Node ''f'' [Node ''A'' [Node ''B'' [] False, Node ''C'' [] False] False] False))
       = [([0], ''A''), ([0, 0], ''B''), ([0, 1], ''C'')]
   \<and> butlast (fst (tl (outline
          (Node ''f'' [Node ''A'' [Node ''B'' [] False, Node ''C'' [] False] False] False)) ! 1))
       = nearest (fst (heading_list demo_jump_tokens ! 1))
           (rev (take 1 (zip (map fst (heading_list demo_jump_tokens))
              (map fst (tl (outline
                 (Node ''f'' [Node ''A'' [Node ''B'' [] False, Node ''C'' [] False] False]
                    False)))))))"
proof -
  have w: "wf_headings demo_jump_tokens" by code_simp
  have h: "heading_list demo_jump_tokens = [(1, ''A''), (3, ''B''), (2, ''C'')]"
    by code_simp
  have o: "tl (outline (Node ''f'' [Node ''A'' [Node ''B'' [] False, Node ''C'' [] False] False] False))
       = [([0], ''A''), ([0, 0], ''B''), ([0, 1], ''C'')]"
    by code_simp
  have k: "1 < length (heading_list demo_jump_tokens)" unfolding h by simp
  obtain T where T: "parse_md demo_jump_tokens ''f'' = Inr T"
    and n: "\<forall>k < length (heading_list demo_jump_tokens).
          fst (tl (outline T) ! k) \<noteq> []
          \<and> butlast (fst (tl (outline T) ! k))
              = nearest (fst (heading_list demo_jump_tokens ! k))
                  (rev (take k (zip (map fst (heading_list demo_jump_tokens))
                                    (map fst (tl (outline T))))))"
    using parse_md_nesting[OF w, of "''f''"] by blast
  have T': "T = Node ''f'' [Node ''A'' [Node ''B'' [] False, Node ''C'' [] False] False] False"
    using T demo_jump_parse by simp
  show ?thesis
    using w demo_jump_parse h o n k unfolding T' by blast
qed

section \<open>Export followed by import\<close>

subsection \<open>The loop on the headings alone\<close>





subsection \<open>Parsing the headings of a subtree\<close>






subsection \<open>Lines and headings\<close>












text \<open>Every entry of the visible sequence is the selected node for some index.\<close>

lemma visible_node_selectable:
  assumes "(p, n) \<in> set (get_visible_nodes s)"
  shows "\<exists>i. get_selected_node (s\<lparr>selected_index := i\<rparr>) = Inr (s\<lparr>selected_index := i\<rparr>, p, n)"
proof -
  have "visible (root s) p" "node_at (root s) p = Some n"
    using assms by (simp_all add: get_visible_nodes_def walk_iff)
  then show ?thesis
    using select_by_index[of "root s" p n s] by blast
qed

end
